theory Spec2Isabelle
  imports Main
begin

section \<open>Text helpers of the Python runtime\<close>

text \<open>
  Python \<^verbatim>\<open>str\<close> values are modelled as HOL strings. The operations below are the
  library calls the executor makes (\<^verbatim>\<open>strip\<close>, \<^verbatim>\<open>lstrip\<close>, \<^verbatim>\<open>lower\<close>,
  \<^verbatim>\<open>startswith\<close>, \<^verbatim>\<open>in\<close>, \<^verbatim>\<open>splitlines\<close>, \<^verbatim>\<open>join\<close>, slicing), written out for
  ASCII text: a character above 127 is neither white space, nor a line boundary, nor
  a letter with a lower-case form.
\<close>

definition newline :: string where
  "newline = [CHR 0x0A]"

definition is_space :: "char \<Rightarrow> bool" where
  "is_space c = (c \<in> set [CHR 0x09, CHR 0x0A, CHR 0x0B, CHR 0x0C, CHR 0x0D,
                           CHR 0x1C, CHR 0x1D, CHR 0x1E, CHR 0x1F, CHR 0x20])"

definition lstrip :: "string \<Rightarrow> string" where
  "lstrip s = dropWhile is_space s"

definition rstrip :: "string \<Rightarrow> string" where
  "rstrip s = rev (dropWhile is_space (rev s))"

definition strip :: "string \<Rightarrow> string" where
  "strip s = rstrip (lstrip s)"

definition lower_char :: "char \<Rightarrow> char" where
  "lower_char c = (let n = (of_char c :: nat) in
                   if 65 \<le> n \<and> n \<le> 90 then char_of (n + 32) else c)"

definition lower :: "string \<Rightarrow> string" where
  "lower s = map lower_char s"

definition startswith :: "string \<Rightarrow> string \<Rightarrow> bool" where
  "startswith s p = (take (length p) s = p)"

text \<open>\<^verbatim>\<open>sub in s\<close>: \<open>sub\<close> occurs in \<open>s\<close> as a contiguous run of characters.\<close>

fun contains :: "string \<Rightarrow> string \<Rightarrow> bool" where
  "contains [] sub = (sub = [])"
| "contains (c # cs) sub = (startswith (c # cs) sub \<or> contains cs sub)"

text \<open>\<^verbatim>\<open>sep.join(xs)\<close>.\<close>

fun join :: "string \<Rightarrow> string list \<Rightarrow> string" where
  "join sep [] = []"
| "join sep [x] = x"
| "join sep (x # y # ys) = x @ sep @ join sep (y # ys)"

text \<open>\<^verbatim>\<open>xs[:n]\<close> for a Python integer \<open>n\<close>: a negative bound counts from the end.\<close>

definition slice_to :: "'a list \<Rightarrow> int \<Rightarrow> 'a list" where
  "slice_to xs n = (if 0 \<le> n then take (nat n) xs
                    else take (nat (int (length xs) + n)) xs)"

definition is_linebreak :: "char \<Rightarrow> bool" where
  "is_linebreak c = (c \<in> set [CHR 0x0A, CHR 0x0B, CHR 0x0C, CHR 0x0D,
                               CHR 0x1C, CHR 0x1D, CHR 0x1E])"

text \<open>
  \<^verbatim>\<open>s.splitlines()\<close>: the line under construction is \<open>cur\<close>; a carriage return
  followed by a line feed is one boundary; there is no empty last line.
\<close>

fun splitlines_from :: "string \<Rightarrow> string \<Rightarrow> string list" where
  "splitlines_from cur [] = (if cur = [] then [] else [cur])"
| "splitlines_from cur [c] = (if is_linebreak c then [cur] else [cur @ [c]])"
| "splitlines_from cur (c # d # cs) =
     (if c = CHR 0x0D \<and> d = CHR 0x0A then cur # splitlines_from [] cs
      else if is_linebreak c then cur # splitlines_from [] (d # cs)
      else splitlines_from (cur @ [c]) (d # cs))"

definition splitlines :: "string \<Rightarrow> string list" where
  "splitlines s = splitlines_from [] s"

text \<open>
  \<^verbatim>\<open>re.sub(r'\x1b[^m]*m', '', data)\<close>: an escape character together with
  everything up to and including the next \<open>m\<close> is removed; an escape character with no
  \<open>m\<close> after it stays.
\<close>

function remove_ansi :: "string \<Rightarrow> string" where
  "remove_ansi [] = []"
| "remove_ansi (c # cs) =
     (if c = CHR 0x1B \<and> CHR ''m'' \<in> set cs
      then remove_ansi (tl (dropWhile (\<lambda>x. x \<noteq> CHR ''m'') cs))
      else c # remove_ansi cs)"
  by pat_completeness auto
termination
proof (relation "measure length")
  fix c :: char and cs :: string
  have "length (tl (dropWhile (\<lambda>x. x \<noteq> CHR ''m'') cs)) \<le> length cs"
    using length_dropWhile_le [of "\<lambda>x. x \<noteq> CHR ''m''" cs] by simp
  then show "(tl (dropWhile (\<lambda>x. x \<noteq> CHR ''m'') cs), c # cs) \<in> measure length"
    by simp
qed simp_all

text \<open>\<^verbatim>\<open>re.sub(r'[\x00-\x1F\x7F]', '', data)\<close>.\<close>

definition is_control :: "char \<Rightarrow> bool" where
  "is_control c = ((of_char c :: nat) \<le> 31 \<or> (of_char c :: nat) = 127)"

definition remove_control :: "string \<Rightarrow> string" where
  "remove_control s = filter (\<lambda>c. \<not> is_control c) s"

section \<open>Data model of the command executor\<close>

text \<open>
  Exceptions that cross the functions modelled here. \<open>CancelledError\<close> and
  \<open>KeyboardInterrupt\<close> derive from \<^verbatim>\<open>BaseException\<close> only, so an
  \<^verbatim>\<open>except Exception\<close> clause lets them through.
\<close>

datatype exn = OSError | ValueError | ConnectionResetError | AttributeError | TypeError
  | InvalidStateError | RuntimeError string | CancelledError | KeyboardInterrupt

fun is_Exception :: "exn \<Rightarrow> bool" where
  "is_Exception CancelledError = False"
| "is_Exception KeyboardInterrupt = False"
| "is_Exception _ = True"

text \<open>One entry of \<^verbatim>\<open>self.history\<close>.\<close>

record command_record =
  command :: string
  "output" :: string
  error :: string

text \<open>The UI collaborator, as far as the executor reads and writes it.\<close>

record ui_object =
  pswd :: "string option"

text \<open>
  What one \<^verbatim>\<open>await proc.stdout.readline()\<close> gives the reading loop: a line (its
  bytes decoded with errors ignored), cancellation of the reading task at that
  suspension point, or an exception of the stream (\<^verbatim>\<open>readline\<close> raises
  \<^verbatim>\<open>ValueError\<close> on a line longer than the stream's limit). The end of the list is
  the end of the stream, where \<^verbatim>\<open>readline\<close> returns empty bytes.

  While the loop is suspended in \<^verbatim>\<open>readline\<close> the monitor task may take a step, so
  the steps of the monitor stand between the reads: the end of its sleep of
  \<^verbatim>\<open>monitor_interval\<close> seconds (with whether \<^verbatim>\<open>proc.returncode\<close> is set by then),
  and the arrival of the human's answer to the question it has asked.
\<close>

datatype monitor_event = Wakes bool | Answered

datatype read_event = Line string | Cancelled | Failed exn | Monitor monitor_event

text \<open>
  The task that runs \<^verbatim>\<open>_monitor_execution\<close>: in \<^verbatim>\<open>asyncio.sleep\<close>, waiting in
  \<^verbatim>\<open>_get_user_input\<close> for the answer the human is going to give, or out of its loop.
\<close>

datatype monitor = Asleep | Asking string | Over

text \<open>
  A subprocess handle: what the child will do (its stdout as seen by \<^verbatim>\<open>readline\<close>,
  what \<^verbatim>\<open>communicate\<close> returns, decoded, its exit status, whether its stdin pipe is
  closed) and what has been done to it (lines written to stdin, \<^verbatim>\<open>terminate\<close> called,
  exit awaited by \<^verbatim>\<open>wait\<close> or \<^verbatim>\<open>communicate\<close>). The exit status is the one read
  after \<^verbatim>\<open>communicate\<close>.
\<close>

record process =
  stdout_events :: "read_event list"
  communicate_stdout :: string
  communicate_stderr :: string
  returncode :: int
  stdin_closed :: bool
  stdin_written :: "string list"
  terminated :: bool
  exit_awaited :: bool

text \<open>
  The environment of an executor: the human at the input field (the reply to the
  \<open>n\<close>-th request for input), the requests made so far (prompt, password flag,
  prefilled text), the messages printed, what \<^verbatim>\<open>asyncio.create_subprocess_shell\<close>
  does for a command string, and the command strings handed to it so far.
\<close>

record world =
  reply :: "nat \<Rightarrow> string"
  prompts :: "(string \<times> bool \<times> string) list"
  printed :: "string list"
  create_subprocess_shell :: "string \<Rightarrow> exn + process"
  spawned :: "string list"

text \<open>The fields of \<^verbatim>\<open>CommandExecutor\<close>.\<close>

record executor =
  history :: "command_record list"
  ui :: "ui_object option"
  should_stop :: bool
  sudo_password :: "string option"
  monitor_interval :: nat
  max_output_lines :: int
  output_validation :: bool

text \<open>Truth value of an optional string: \<^verbatim>\<open>None\<close> and the empty string are false.\<close>

fun truthy :: "string option \<Rightarrow> bool" where
  "truthy None = False"
| "truthy (Some s) = (s \<noteq> [])"

definition no_output_message :: string where
  "no_output_message =
     ''No output received. Command may require user interaction or is piped.''"

definition truncation_marker :: string where
  "truncation_marker = ''[Output truncated]''"

section \<open>Operations of the command executor\<close>

text \<open>
  The methods of \<^verbatim>\<open>CommandExecutor\<close>, without their log lines and without the leading
  underscore of the private ones. A method takes the executor and the environment and
  returns them updated; a result \<open>Inl e\<close> is the exception \<open>e\<close> leaving the method.

  \<^verbatim>\<open>__init__\<close>; the three settings come from \<^verbatim>\<open>config.settings\<close> and are
  parameters here.
\<close>

definition executor_init :: "ui_object option \<Rightarrow> nat \<Rightarrow> int \<Rightarrow> bool \<Rightarrow> executor" where
  "executor_init u interval max_lines validation =
     \<lparr>history = [], ui = u, should_stop = False,
      sudo_password = (case u of None \<Rightarrow> None | Some x \<Rightarrow> pswd x),
      monitor_interval = interval, max_output_lines = max_lines,
      output_validation = validation\<rparr>"

text \<open>
  \<^verbatim>\<open>_get_user_input\<close>: with a UI the request carries the password flag and the
  prefilled text, without one \<^verbatim>\<open>input(prompt_text)\<close> shows the prompt only.
\<close>

definition get_user_input ::
  "executor \<Rightarrow> world \<Rightarrow> string \<Rightarrow> bool \<Rightarrow> string \<Rightarrow> string \<times> world" where
  "get_user_input ex w prompt_text is_password input_text =
     (if ui ex \<noteq> None
      then (reply w (length (prompts w)),
            w\<lparr>prompts := prompts w @ [(prompt_text, is_password, input_text)]\<rparr>)
      else (reply w (length (prompts w)),
            w\<lparr>prompts := prompts w @ [(prompt_text, False, [])]\<rparr>))"

definition print_message :: "executor \<Rightarrow> world \<Rightarrow> string \<Rightarrow> world" where
  "print_message ex w message = w\<lparr>printed := printed w @ [message]\<rparr>"

text \<open>
  \<^verbatim>\<open>_start_subprocess\<close> returns what \<^verbatim>\<open>create_subprocess_shell\<close> returns, a process
  handle, or lets its exception pass; it has no \<^verbatim>\<open>try\<close>.
\<close>

definition start_subprocess :: "world \<Rightarrow> string \<Rightarrow> (exn + process option) \<times> world" where
  "start_subprocess w cmd =
     (case create_subprocess_shell w cmd of
        Inl e \<Rightarrow> (Inl e, w\<lparr>spawned := spawned w @ [cmd]\<rparr>)
      | Inr p \<Rightarrow> (Inr (Some p), w\<lparr>spawned := spawned w @ [cmd]\<rparr>))"

text \<open>
  \<^verbatim>\<open>_validate_sudo_password\<close>: on a \<^verbatim>\<open>None\<close> handle \<^verbatim>\<open>proc.communicate()\<close> would
  raise \<^verbatim>\<open>AttributeError\<close>, which \<open>start_subprocess\<close> never returns.
\<close>

definition validate_sudo_password :: "world \<Rightarrow> string \<Rightarrow> (exn + bool) \<times> world" where
  "validate_sudo_password w pw =
     (case start_subprocess w (''echo '' @ pw @ '' | sudo -S -v'') of
        (Inl e, w1) \<Rightarrow> (Inl e, w1)
      | (Inr None, w1) \<Rightarrow> (Inl AttributeError, w1)
      | (Inr (Some p), w1) \<Rightarrow> (Inr (returncode p = 0), w1))"

text \<open>
  The \<^verbatim>\<open>else\<close> branch of \<^verbatim>\<open>_get_sudo_password\<close>: ask the human, keep the answer
  in \<^verbatim>\<open>self.sudo_password\<close>, and validate it when it is not empty.
\<close>

definition ask_sudo_password :: "executor \<Rightarrow> world \<Rightarrow> (exn + unit) \<times> executor \<times> world" where
  "ask_sudo_password ex w =
     (case get_user_input ex w ''Enter sudo password: '' True [] of
        (pw, w1) \<Rightarrow>
          let ex1 = ex\<lparr>sudo_password := Some pw\<rparr> in
          if pw \<noteq> [] then
            (case validate_sudo_password w1 pw of
               (Inl e, w2) \<Rightarrow> (Inl e, ex1, w2)
             | (Inr valid, w2) \<Rightarrow>
                 if valid
                 then (Inr (),
                       ex1\<lparr>ui := map_option (\<lambda>u. u\<lparr>pswd := Some pw\<rparr>) (ui ex1)\<rparr>, w2)
                 else (Inr (),
                       ex1\<lparr>ui := map_option (\<lambda>u. u\<lparr>pswd := None\<rparr>) (ui ex1),
                           sudo_password := None\<rparr>,
                       print_message ex1 w2 (newline @ ''Wrong password'')))
          else (Inr (), ex1, w1))"

text \<open>
  \<^verbatim>\<open>_get_sudo_password\<close>: a credential kept on the UI collaborator is taken from
  there; \<^verbatim>\<open>__init__\<close> has read \<^verbatim>\<open>ui.pswd\<close> already, so the attribute exists.
\<close>

definition get_sudo_password :: "executor \<Rightarrow> world \<Rightarrow> (exn + unit) \<times> executor \<times> world" where
  "get_sudo_password ex w =
     (case ui ex of
        None \<Rightarrow> ask_sudo_password ex w
      | Some u \<Rightarrow>
          if truthy (pswd u) then (Inr (), ex\<lparr>sudo_password := pswd u\<rparr>, w)
          else ask_sudo_password ex w)"

definition extract_meaningful_text :: "string \<Rightarrow> string option" where
  "extract_meaningful_text data =
     (let cleaned_data = remove_control (remove_ansi data)
      in if length (strip cleaned_data) > 0 then Some (strip cleaned_data) else None)"

definition should_handle_prompt :: "string \<Rightarrow> bool" where
  "should_handle_prompt decoded_line =
     (\<exists>kw \<in> set [''[y/n]'', ''(yes/no)'', ''(y/n)'', ''password:'', ''continue?''].
        contains (lower decoded_line) kw)"

text \<open>
  \<^verbatim>\<open>_handle_prompt\<close>: the answer is written to the child's stdin; \<^verbatim>\<open>drain\<close>
  raises when the pipe is closed.
\<close>

definition handle_prompt ::
  "executor \<Rightarrow> world \<Rightarrow> process \<Rightarrow> string \<Rightarrow> (exn + unit) \<times> world \<times> process" where
  "handle_prompt ex w p decoded_line =
     (case (if contains (lower decoded_line) ''password:''
            then (if truthy (sudo_password ex)
                  then (case sudo_password ex of Some pw \<Rightarrow> (pw, w) | None \<Rightarrow> ([], w))
                  else get_user_input ex w ''Enter password: '' True [])
            else (''yes'', w)) of
        (response, w1) \<Rightarrow>
          let p1 = p\<lparr>stdin_written := stdin_written p @ [response @ newline]\<rparr>
          in if stdin_closed p1 then (Inl ConnectionResetError, w1, p1)
             else (Inr (), w1, p1))"

definition monitor_question :: string where
  "monitor_question =
     newline @ ''Command is taking longer than expected. Cancel execution? (y/n): ''"

text \<open>
  One step of \<^verbatim>\<open>_monitor_execution\<close>. After its sleep the monitor leaves its loop
  when the child has exited and asks the human otherwise; on the answer \<open>y\<close> or
  \<open>yes\<close> it prints a message, terminates the child and leaves its loop, on any other
  answer it sleeps again. A step that does not fit the state of the monitor does
  nothing. An exception raised inside the monitor task stays in that task.
\<close>

fun monitor_execution ::
  "executor \<Rightarrow> world \<Rightarrow> process \<Rightarrow> monitor \<Rightarrow> monitor_event
    \<Rightarrow> world \<times> process \<times> monitor" where
  "monitor_execution ex w p Asleep (Wakes exited) =
     (if exited then (w, p, Over)
      else (case get_user_input ex w monitor_question False [] of
              (user_choice, w1) \<Rightarrow> (w1, p, Asking user_choice)))"
| "monitor_execution ex w p (Asking user_choice) Answered =
     (if lower (strip user_choice) \<in> set [''y'', ''yes'']
      then (print_message ex w (newline @ ''Terminating command execution...''),
            p\<lparr>terminated := True\<rparr>, Over)
      else (w, p, Asleep))"
| "monitor_execution ex w p m mev = (w, p, m)"

text \<open>
  The \<^verbatim>\<open>while True\<close> loop of \<^verbatim>\<open>_process_command_output\<close> with the monitor task
  beside it, by recursion on what the stream still holds: how the loop is left, with
  the lines collected.
\<close>

datatype loop_exit = StreamEnd "string list" | CancelledAt "string list" | Raised exn

fun read_loop ::
  "executor \<Rightarrow> world \<Rightarrow> process \<Rightarrow> monitor \<Rightarrow> read_event list \<Rightarrow> string list
    \<Rightarrow> loop_exit \<times> world \<times> process" where
  "read_loop ex w p m [] output_lines = (StreamEnd output_lines, w, p)"
| "read_loop ex w p m (Cancelled # evs) output_lines = (CancelledAt output_lines, w, p)"
| "read_loop ex w p m (Failed e # evs) output_lines = (Raised e, w, p)"
| "read_loop ex w p m (Monitor mev # evs) output_lines =
     (case monitor_execution ex w p m mev of
        (w1, p1, m1) \<Rightarrow> read_loop ex w1 p1 m1 evs output_lines)"
| "read_loop ex w p m (Line raw # evs) output_lines =
     (let decoded_line = strip raw;
          lines1 = (case extract_meaningful_text decoded_line of
                      Some extracted_text \<Rightarrow> output_lines @ [extracted_text]
                    | None \<Rightarrow> output_lines)
      in if should_handle_prompt decoded_line
         then (case handle_prompt ex w p decoded_line of
                 (Inl e, w1, p1) \<Rightarrow> (Raised e, w1, p1)
               | (Inr u, w1, p1) \<Rightarrow> read_loop ex w1 p1 m evs lines1)
         else read_loop ex w p m evs lines1)"

text \<open>
  \<^verbatim>\<open>_clear_sudo_password\<close>: the random token assigned first is replaced at once by
  \<^verbatim>\<open>None\<close>, with no suspension point between the two assignments.
\<close>

definition clear_sudo_password :: "executor \<Rightarrow> executor" where
  "clear_sudo_password ex = ex\<lparr>sudo_password := None\<rparr>"

text \<open>
  \<^verbatim>\<open>_finalize_command_output\<close>; \<open>out\<close> and \<open>err\<close> are the decoded byte strings
  of \<^verbatim>\<open>communicate\<close> (empty when there were none).
\<close>

definition finalized_lines :: "executor \<Rightarrow> string list \<Rightarrow> string \<Rightarrow> string list" where
  "finalized_lines ex output_lines out =
     (let additional_output = strip out;
          lines1 = (if additional_output \<noteq> [] then output_lines @ splitlines additional_output
                    else output_lines);
          lines2 = (if lines1 = [] then [no_output_message] else lines1)
      in if int (length lines2) > max_output_lines ex
         then slice_to lines2 (max_output_lines ex) @ [truncation_marker]
         else lines2)"

definition finalize_command_output ::
  "executor \<Rightarrow> process \<Rightarrow> string \<Rightarrow> string list \<Rightarrow> string \<Rightarrow> string \<Rightarrow> string \<times> executor" where
  "finalize_command_output ex p cmd output_lines out err =
     (let error_str = strip err;
          output_str = join newline (finalized_lines ex output_lines out);
          ex1 = ex\<lparr>history := history ex @
                   [\<lparr>command = cmd, output = output_str, error = error_str\<rparr>]\<rparr>;
          ex2 = clear_sudo_password ex1
      in (if returncode p = 0 then output_str else ''Error: '' @ error_str, ex2))"

text \<open>
  \<^verbatim>\<open>_process_command_output\<close>. The monitor task is created before the loop, asleep,
  and cancelled in the \<^verbatim>\<open>finally\<close> clause on every way out of the loop, so it
  takes no step after the loop. The handler of \<^verbatim>\<open>CancelledError\<close> terminates the
  child and waits for it; any other exception leaves through the \<^verbatim>\<open>finally\<close>
  clause alone.
\<close>

definition process_command_output ::
  "executor \<Rightarrow> world \<Rightarrow> process \<Rightarrow> string
    \<Rightarrow> (exn + string option) \<times> executor \<times> world \<times> process" where
  "process_command_output ex w p cmd =
     (case read_loop ex w p Asleep (stdout_events p) [] of
        (CancelledAt output_lines, w1, p1) \<Rightarrow>
          (Inr (Some (join newline output_lines)), ex, w1,
           p1\<lparr>terminated := True, exit_awaited := True\<rparr>)
      | (Raised e, w1, p1) \<Rightarrow> (Inl e, ex, w1, p1)
      | (StreamEnd output_lines, w1, p1) \<Rightarrow>
          let lines1 = (if output_lines = [] then [no_output_message] else output_lines);
              p2 = p1\<lparr>exit_awaited := True\<rparr>
          in (case finalize_command_output ex p2 cmd lines1
                     (communicate_stdout p2) (communicate_stderr p2) of
                (result, ex1) \<Rightarrow> (Inr (Some result), ex1, w1, p2)))"

text \<open>
  The tail of \<^verbatim>\<open>execute_command\<close> from the spawn on; the handle is dropped when the
  method returns.
\<close>

definition spawn_and_process ::
  "executor \<Rightarrow> world \<Rightarrow> string \<Rightarrow> (exn + string option) \<times> executor \<times> world" where
  "spawn_and_process ex w cmd =
     (case start_subprocess w cmd of
        (Inl e, w1) \<Rightarrow> (Inl e, ex, w1)
      | (Inr None, w1) \<Rightarrow>
          (Inr (Some ''Error: Command did not produce valid output or is not interactive.''),
           ex, w1)
      | (Inr (Some proc), w1) \<Rightarrow>
          (case process_command_output ex w1 proc cmd of
             (r, ex1, w2, proc1) \<Rightarrow> (r, ex1, w2)))"

definition execute_command ::
  "executor \<Rightarrow> world \<Rightarrow> string \<Rightarrow> (exn + string option) \<times> executor \<times> world" where
  "execute_command ex w cmd =
     (if cmd = [] then (Inr (Some ''No command provided.''), ex, w)
      else if startswith cmd ''sudo'' then
        (case (if \<not> truthy (sudo_password ex) then get_sudo_password ex w
               else (Inr (), ex, w)) of
           (Inl e, ex1, w1) \<Rightarrow> (Inl e, ex1, w1)
         | (Inr u, ex1, w1) \<Rightarrow>
             (case sudo_password ex1 of
                None \<Rightarrow> (Inr None, ex1, w1)
              | Some pw \<Rightarrow>
                  if pw = [] then (Inr None, ex1, w1)
                  else spawn_and_process ex1 w1
                         (''echo '' @ pw @ '' | sudo -S '' @ drop 5 cmd)))
      else spawn_and_process ex w cmd)"

text \<open>
  \<^verbatim>\<open>asyncio.create_subprocess_shell(cmd)\<close> runs the command line through the shell:
  the argument vector of the spawned process.
\<close>

definition shell_argv :: "string \<Rightarrow> string list" where
  "shell_argv cmd = [''/bin/sh'', ''-c'', cmd]"

definition confirm_execute_command :: "executor \<Rightarrow> world \<Rightarrow> string \<Rightarrow> string option \<times> world" where
  "confirm_execute_command ex w cmd =
     (case get_user_input ex w
             (''Validate the command and press [blue]Enter[/].'' @ newline @
              ''Or delete the text and press [blue]Enter[/] to cancel'')
             False (lstrip cmd) of
        (edited, w1) \<Rightarrow> (if edited \<noteq> [] then Some edited else None, w1))"

text \<open>
  \<^verbatim>\<open>start\<close>: the result is the pair \<^verbatim>\<open>(confirmed_command, output)\<close>, or the
  exception that \<^verbatim>\<open>execute_command\<close> let through.
\<close>

definition start ::
  "executor \<Rightarrow> world \<Rightarrow> string option
    \<Rightarrow> (exn + string option \<times> string option) \<times> executor \<times> world" where
  "start ex w cmd =
     (if truthy cmd then
        (case cmd of
           None \<Rightarrow> (Inr (None, Some ''No command specified.''), ex, w)
         | Some c \<Rightarrow>
             (case confirm_execute_command ex w c of
                (None, w1) \<Rightarrow> (Inr (None, None), ex, w1)
              | (Some confirmed_command, w1) \<Rightarrow>
                  (case execute_command ex w1 confirmed_command of
                     (Inl e, ex1, w2) \<Rightarrow> (Inl e, ex1, w2)
                   | (Inr out, ex1, w2) \<Rightarrow> (Inr (Some confirmed_command, out), ex1, w2))))
      else (Inr (None, Some ''No command specified.''), ex, w))"

section \<open>Data model of the task manager\<close>

text \<open>How an awaited unit of work ends.\<close>

datatype 'a outcome = Returns 'a | Raises exn

text \<open>
  A callable handed to \<^verbatim>\<open>enqueue\<close> together with its arguments: whether
  \<^verbatim>\<open>asyncio.iscoroutinefunction\<close> accepts it, whether the arguments bind to its
  signature, how \<^verbatim>\<open>await coro_func(*args, **kwargs)\<close> ends when it is left to run,
  and how it ends when \<^verbatim>\<open>CancelledError\<close> is thrown into it while it is suspended
  (\<open>Raises CancelledError\<close> unless the coroutine intercepts the cancellation).
\<close>

record 'a coroutine_function =
  is_coroutine_function :: bool
  binds :: bool
  completes :: "'a outcome"
  when_cancelled :: "'a outcome"

text \<open>
  An \<^verbatim>\<open>asyncio.Future\<close> created by \<^verbatim>\<open>enqueue\<close>: its state (pending, cancelled
  because the caller that awaits it was cancelled, or resolved with a result or an
  exception), and the number of \<^verbatim>\<open>set_result\<close> and \<^verbatim>\<open>set_exception\<close> calls made on
  it.
\<close>

datatype 'a future_state = Pending | FutureCancelled | Result 'a | Exception exn

record 'a future =
  state :: "'a future_state"
  set_calls :: nat

text \<open>
  The tuple \<^verbatim>\<open>(coro_func, args, kwargs, future)\<close> on the queue; the future is named
  by its position among the futures created.
\<close>

record 'a pending_task =
  coro_func :: "'a coroutine_function"
  future :: nat

text \<open>
  The \<^verbatim>\<open>asyncio.Task\<close> that runs \<^verbatim>\<open>_task_worker\<close>: created and not yet run,
  suspended in \<^verbatim>\<open>await coro_func(*args, **kwargs)\<close> for a dequeued task, or done.
\<close>

datatype 'a worker = Scheduled | Awaiting "'a pending_task" | Done

datatype worker_event = Began nat | Ended nat

text \<open>
  The fields of \<^verbatim>\<open>TaskManager\<close>, the cancellation request pending on the worker
  task, the futures created so far, and a journal of the units of work the worker has
  begun and seen end.
\<close>

record 'a task_manager =
  task_queue :: "'a pending_task list"
  worker_running :: bool
  worker_task :: "'a worker option"
  cancel_requested :: bool
  futures :: "'a future list"
  journal :: "worker_event list"

definition task_manager_init :: "'a task_manager" where
  "task_manager_init = \<lparr>task_queue = [], worker_running = False, worker_task = None,
                         cancel_requested = False, futures = [], journal = []\<rparr>"

section \<open>Operations of the task manager\<close>

text \<open>
  \<^verbatim>\<open>Future.set_result\<close> and \<^verbatim>\<open>Future.set_exception\<close>: a future that is no
  longer pending raises \<^verbatim>\<open>InvalidStateError\<close>.
\<close>

definition set_result :: "'a future \<Rightarrow> 'a \<Rightarrow> exn option \<times> 'a future" where
  "set_result f v =
     (if state f = Pending
      then (None, \<lparr>state = Result v, set_calls = Suc (set_calls f)\<rparr>)
      else (Some InvalidStateError, f\<lparr>set_calls := Suc (set_calls f)\<rparr>))"

definition set_exception :: "'a future \<Rightarrow> exn \<Rightarrow> exn option \<times> 'a future" where
  "set_exception f e =
     (if state f = Pending
      then (None, \<lparr>state = Exception e, set_calls = Suc (set_calls f)\<rparr>)
      else (Some InvalidStateError, f\<lparr>set_calls := Suc (set_calls f)\<rparr>))"

definition future_set_result ::
  "'a task_manager \<Rightarrow> nat \<Rightarrow> 'a \<Rightarrow> exn option \<times> 'a task_manager" where
  "future_set_result s i v =
     (case set_result (futures s ! i) v of
        (r, f) \<Rightarrow> (r, s\<lparr>futures := (futures s)[i := f]\<rparr>))"

definition future_set_exception ::
  "'a task_manager \<Rightarrow> nat \<Rightarrow> exn \<Rightarrow> exn option \<times> 'a task_manager" where
  "future_set_exception s i e =
     (case set_exception (futures s ! i) e of
        (r, f) \<Rightarrow> (r, s\<lparr>futures := (futures s)[i := f]\<rparr>))"

text \<open>\<^verbatim>\<open>start\<close> of the task manager.\<close>

definition task_manager_start :: "'a task_manager \<Rightarrow> 'a task_manager" where
  "task_manager_start s =
     (if worker_task s = None \<or> worker_task s = Some Done
      then s\<lparr>worker_task := Some Scheduled, cancel_requested := False\<rparr>
      else s)"

text \<open>
  \<^verbatim>\<open>stop\<close>: \<^verbatim>\<open>worker_task.cancel()\<close> requests the cancellation, which the event
  loop delivers at the worker's next step; \<^verbatim>\<open>stop\<close> then waits for the worker task.
\<close>

definition task_manager_stop :: "'a task_manager \<Rightarrow> 'a task_manager" where
  "task_manager_stop s =
     (if worker_task s \<noteq> None \<and> worker_task s \<noteq> Some Done
      then s\<lparr>cancel_requested := True\<rparr>
      else s)"

text \<open>
  \<^verbatim>\<open>enqueue\<close> up to \<^verbatim>\<open>return await future\<close>: the two checks, the new future, the
  \<^verbatim>\<open>put\<close> on the unbounded queue, and the start of the worker. None of these steps
  suspends. The caller then waits in \<^verbatim>\<open>return await future\<close>, which the two
  definitions after this one describe.
\<close>

definition enqueue :: "'a task_manager \<Rightarrow> 'a coroutine_function \<Rightarrow> exn + 'a task_manager" where
  "enqueue s c =
     (if \<not> is_coroutine_function c then Inl TypeError
      else if \<not> binds c then Inl TypeError
      else
        let s1 = s\<lparr>futures := futures s @ [\<lparr>state = Pending, set_calls = 0\<rparr>],
                   task_queue := task_queue s @
                     [\<lparr>coro_func = c, future = length (futures s)\<rparr>]\<rparr>
        in Inr (if \<not> worker_running s1 then task_manager_start s1 else s1))"

text \<open>
  \<^verbatim>\<open>return await future\<close>, the last line of \<^verbatim>\<open>enqueue\<close>: what the caller that
  waits on a future gets from it, \<open>None\<close> while it still waits.
\<close>

definition await_future :: "'a future \<Rightarrow> 'a outcome option" where
  "await_future f =
     (case state f of
        Pending \<Rightarrow> None
      | FutureCancelled \<Rightarrow> Some (Raises CancelledError)
      | Result v \<Rightarrow> Some (Returns v)
      | Exception e \<Rightarrow> Some (Raises e))"

text \<open>
  The caller that waits in \<^verbatim>\<open>return await future\<close> on the \<open>i\<close>-th future is
  cancelled (by a timeout around \<^verbatim>\<open>enqueue\<close>, say): the cancellation of the caller's
  task cancels the future it awaits. A future that is already done is left as it is.
\<close>

definition cancel_caller :: "'a task_manager \<Rightarrow> nat \<Rightarrow> 'a task_manager" where
  "cancel_caller s i =
     (if i < length (futures s) \<and> state (futures s ! i) = Pending
      then s\<lparr>futures := (futures s)[i := (futures s ! i)\<lparr>state := FutureCancelled\<rparr>]\<rparr>
      else s)"

text \<open>The \<^verbatim>\<open>finally\<close> clause of \<^verbatim>\<open>_task_worker\<close>, after which the worker task is done.\<close>

definition worker_finally :: "'a task_manager \<Rightarrow> 'a task_manager" where
  "worker_finally s = s\<lparr>worker_running := False, worker_task := Some Done\<rparr>"

text \<open>
  The head of the \<^verbatim>\<open>while\<close> loop: leave when the queue is empty, otherwise take the
  next task (\<^verbatim>\<open>get\<close> on a queue that is not empty does not suspend) and await its
  unit of work. The log lines, the timing and the \<^verbatim>\<open>task_done\<close> count of the queue,
  which nothing reads, are left out.
\<close>

definition worker_loop :: "'a task_manager \<Rightarrow> 'a task_manager" where
  "worker_loop s =
     (case task_queue s of
        [] \<Rightarrow> worker_finally s
      | t # q \<Rightarrow> s\<lparr>task_queue := q, worker_task := Some (Awaiting t),
                    journal := journal s @ [Began (future t)]\<rparr>)"

text \<open>
  The rest of the loop body once the awaited unit of work has ended: a result goes to
  \<^verbatim>\<open>set_result\<close>; an exception of class \<^verbatim>\<open>Exception\<close>, also one raised by
  \<^verbatim>\<open>set_result\<close>, goes to \<^verbatim>\<open>set_exception\<close>; an exception raised in the handler
  and an exception outside class \<^verbatim>\<open>Exception\<close> end the worker through \<^verbatim>\<open>finally\<close>.
\<close>

definition after_await ::
  "'a task_manager \<Rightarrow> 'a pending_task \<Rightarrow> 'a outcome \<Rightarrow> 'a task_manager" where
  "after_await s t out =
     (let s0 = s\<lparr>journal := journal s @ [Ended (future t)]\<rparr> in
      case out of
        Returns v \<Rightarrow>
          (case future_set_result s0 (future t) v of
             (None, s1) \<Rightarrow> worker_loop s1
           | (Some e, s1) \<Rightarrow>
               (case future_set_exception s1 (future t) e of
                  (None, s2) \<Rightarrow> worker_loop s2
                | (Some e2, s2) \<Rightarrow> worker_finally s2))
      | Raises e \<Rightarrow>
          if is_Exception e
          then (case future_set_exception s0 (future t) e of
                  (None, s1) \<Rightarrow> worker_loop s1
                | (Some e2, s1) \<Rightarrow> worker_finally s1)
          else worker_finally s0)"

text \<open>The first step of \<^verbatim>\<open>_task_worker\<close>.\<close>

definition task_worker :: "'a task_manager \<Rightarrow> 'a task_manager" where
  "task_worker s =
     (if worker_running s then s\<lparr>worker_task := Some Done\<rparr>
      else worker_loop (s\<lparr>worker_running := True\<rparr>))"

text \<open>
  The event loop gives the worker task its next step: a pending cancellation is
  delivered (a task cancelled before its first step never runs its body), otherwise
  the worker starts, or the unit of work it awaits ends.
\<close>

definition resume_worker :: "'a task_manager \<Rightarrow> 'a task_manager" where
  "resume_worker s =
     (case worker_task s of
        Some Scheduled \<Rightarrow>
          if cancel_requested s
          then s\<lparr>worker_task := Some Done, cancel_requested := False\<rparr>
          else task_worker s
      | Some (Awaiting t) \<Rightarrow>
          if cancel_requested s
          then after_await (s\<lparr>cancel_requested := False\<rparr>) t (when_cancelled (coro_func t))
          else after_await s t (completes (coro_func t))
      | _ \<Rightarrow> s)"

text \<open>
  A schedule: the calls made on the task manager, the steps of its worker and the
  cancellations of callers that wait on their futures, in the order in which the
  single-threaded event loop runs them.
\<close>

datatype 'a event = Enqueue "'a coroutine_function" | Start | Stop | Resume
  | CancelCaller nat

fun step :: "'a task_manager \<Rightarrow> 'a event \<Rightarrow> 'a task_manager" where
  "step s (Enqueue c) = (case enqueue s c of Inl e \<Rightarrow> s | Inr s1 \<Rightarrow> s1)"
| "step s Start = task_manager_start s"
| "step s Stop = task_manager_stop s"
| "step s Resume = resume_worker s"
| "step s (CancelCaller i) = cancel_caller s i"

definition run :: "'a task_manager \<Rightarrow> 'a event list \<Rightarrow> 'a task_manager" where
  "run s evs = foldl step s evs"

text \<open>The units of work that \<^verbatim>\<open>enqueue\<close> has accepted in a schedule, in order.\<close>

fun submitted :: "'a event list \<Rightarrow> 'a coroutine_function list" where
  "submitted [] = []"
| "submitted (Enqueue c # evs) =
     (if is_coroutine_function c \<and> binds c then c # submitted evs else submitted evs)"
| "submitted (ev # evs) = submitted evs"

section \<open>Notions used to state the properties of the task manager\<close>

text \<open>
  The tasks that still wait for their resolution: the one whose unit of work the worker
  awaits, then the queue.
\<close>

definition outstanding :: "'a task_manager \<Rightarrow> 'a pending_task list" where
  "outstanding s =
     (case worker_task s of Some (Awaiting t) \<Rightarrow> [t] | _ \<Rightarrow> []) @ task_queue s"

text \<open>
  A future agrees with its unit of work \<open>c\<close>: pending with no call made on it, or
  cancelled by its caller with at most two calls made on it, or resolved by one call
  with a result or an exception of class \<^verbatim>\<open>Exception\<close> with which \<open>c\<close> ends.
\<close>

definition explained :: "'a coroutine_function \<Rightarrow> 'a future \<Rightarrow> bool" where
  "explained c f =
     (case state f of
        Pending \<Rightarrow> set_calls f = 0
      | FutureCancelled \<Rightarrow> set_calls f \<le> 2
      | Result v \<Rightarrow>
          set_calls f = 1 \<and> (completes c = Returns v \<or> when_cancelled c = Returns v)
      | Exception e \<Rightarrow>
          set_calls f = 1 \<and> is_Exception e \<and>
          (completes c = Raises e \<or> when_cancelled c = Raises e))"

text \<open>
  The futures \<open>fs\<close>, the waiting tasks \<open>ts\<close> and the accepted units of work \<open>cs\<close>
  fit together: a future per unit, no future twice among the waiting tasks, each
  waiting task with its own unit and a future on which no call has been made.
\<close>

definition good ::
  "'a future list \<Rightarrow> 'a pending_task list \<Rightarrow> 'a coroutine_function list \<Rightarrow> bool" where
  "good fs ts cs \<longleftrightarrow>
     length fs = length cs \<and> distinct (map future ts) \<and>
     (\<forall>t \<in> set ts. future t < length cs \<and> coro_func t = cs ! future t \<and>
                    set_calls (fs ! future t) = 0) \<and>
     (\<forall>i < length cs. explained (cs ! i) (fs ! i))"

definition consistent :: "'a task_manager \<Rightarrow> 'a coroutine_function list \<Rightarrow> bool" where
  "consistent s cs = good (futures s) (outstanding s) cs"

text \<open>
  The state a schedule without \<^verbatim>\<open>stop\<close> is in after the first \<open>k\<close> of the accepted
  units \<open>cs\<close> have ended: task \<open>i\<close> carries unit \<open>i\<close> and future \<open>i\<close>; a settled
  future holds the outcome of its own unit after one call; the journal of \<open>k\<close> finished
  units lists them one after the other.
\<close>

definition task_of :: "'a coroutine_function list \<Rightarrow> nat \<Rightarrow> 'a pending_task" where
  "task_of cs i = \<lparr>coro_func = cs ! i, future = i\<rparr>"

definition settled :: "'a coroutine_function \<Rightarrow> 'a future" where
  "settled c =
     (case completes c of
        Returns v \<Rightarrow> \<lparr>state = Result v, set_calls = 1\<rparr>
      | Raises e \<Rightarrow> \<lparr>state = Exception e, set_calls = 1\<rparr>)"

fun done_journal :: "nat \<Rightarrow> worker_event list" where
  "done_journal 0 = []"
| "done_journal (Suc k) = done_journal k @ [Began k, Ended k]"

definition returns_or_raises_Exception :: "'a coroutine_function \<Rightarrow> bool" where
  "returns_or_raises_Exception c = (case completes c of Returns v \<Rightarrow> True | Raises e \<Rightarrow> is_Exception e)"

fun orderly :: "'a event \<Rightarrow> bool" where
  "orderly (Enqueue c) = returns_or_raises_Exception c"
| "orderly Stop = False"
| "orderly (CancelCaller i) = False"
| "orderly Start = True"
| "orderly Resume = True"

definition busy :: "'a task_manager \<Rightarrow> 'a coroutine_function list \<Rightarrow> nat \<Rightarrow> bool" where
  "busy s cs k \<longleftrightarrow>
     k < length cs \<and> worker_task s = Some (Awaiting (task_of cs k)) \<and> worker_running s \<and>
     task_queue s = map (task_of cs) [Suc k..<length cs] \<and>
     journal s = done_journal k @ [Began k]"

definition ready :: "'a task_manager \<Rightarrow> 'a coroutine_function list \<Rightarrow> nat \<Rightarrow> bool" where
  "ready s cs k \<longleftrightarrow>
     worker_task s = Some Scheduled \<and> \<not> worker_running s \<and>
     task_queue s = map (task_of cs) [k..<length cs] \<and> journal s = done_journal k"

definition idle :: "'a task_manager \<Rightarrow> 'a coroutine_function list \<Rightarrow> nat \<Rightarrow> bool" where
  "idle s cs k \<longleftrightarrow>
     (worker_task s = None \<or> worker_task s = Some Done) \<and> \<not> worker_running s \<and>
     k = length cs \<and> task_queue s = [] \<and> journal s = done_journal k"

definition progress :: "'a task_manager \<Rightarrow> 'a coroutine_function list \<Rightarrow> nat \<Rightarrow> bool" where
  "progress s cs k \<longleftrightarrow>
     k \<le> length cs \<and> \<not> cancel_requested s \<and> (\<forall>c \<in> set cs. returns_or_raises_Exception c) \<and>
     futures s = map settled (take k cs)
                 @ replicate (length cs - k) \<lparr>state = Pending, set_calls = 0\<rparr>"

definition in_order :: "'a task_manager \<Rightarrow> 'a coroutine_function list \<Rightarrow> bool" where
  "in_order s cs \<longleftrightarrow>
     (\<exists>k. progress s cs k \<and> (busy s cs k \<or> ready s cs k \<or> idle s cs k))"

definition steps_left :: "'a task_manager \<Rightarrow> nat" where
  "steps_left s =
     (case worker_task s of
        Some Scheduled \<Rightarrow> Suc (length (task_queue s))
      | Some (Awaiting t) \<Rightarrow> Suc (length (task_queue s))
      | _ \<Rightarrow> 0)"

text \<open>A future is resolved when it holds a result or an exception.\<close>

definition resolved :: "'a future \<Rightarrow> bool" where
  "resolved f = (case state f of Result v \<Rightarrow> True | Exception e \<Rightarrow> True | _ \<Rightarrow> False)"

text \<open>A future that is not resolved and whose task is neither awaited nor queued.\<close>

definition untouched :: "'a task_manager \<Rightarrow> nat \<Rightarrow> bool" where
  "untouched s i \<longleftrightarrow>
     i < length (futures s) \<and> \<not> resolved (futures s ! i) \<and>
     i \<notin> future ` set (outstanding s)"

section \<open>Notions used to state the properties of the executor\<close>

text \<open>The lines a stretch of the stream gives to \<^verbatim>\<open>readline\<close>, in order.\<close>

fun line_texts :: "read_event list \<Rightarrow> string list" where
  "line_texts [] = []"
| "line_texts (Line raw # evs) = raw # line_texts evs"
| "line_texts (ev # evs) = line_texts evs"

text \<open>A stretch of the stream in which no read is cancelled and none fails.\<close>

fun uninterrupted :: "read_event list \<Rightarrow> bool" where
  "uninterrupted [] = True"
| "uninterrupted (Cancelled # evs) = False"
| "uninterrupted (Failed e # evs) = False"
| "uninterrupted (ev # evs) = uninterrupted evs"

text \<open>The input request of the monitor, as the environment records it.\<close>

definition monitor_request :: "string \<times> bool \<times> string" where
  "monitor_request = (monitor_question, False, [])"

section \<open>Sample executors, children and environments\<close>

definition quiet :: process where
  "quiet = \<lparr>stdout_events = [], communicate_stdout = [], communicate_stderr = [],
            returncode = 0, stdin_closed = False, stdin_written = [],
            terminated = False, exit_awaited = False\<rparr>"

definition console :: world where
  "console = \<lparr>reply = (\<lambda>n. []), prompts = [], printed = [],
              create_subprocess_shell = (\<lambda>c. Inr quiet), spawned = []\<rparr>"

definition plain_executor :: executor where
  "plain_executor = executor_init None 5 100 True"

definition sudo_executor :: executor where
  "sudo_executor = (executor_init None 5 100 True)\<lparr>sudo_password := Some ''hunter2''\<rparr>"

definition ui_executor :: executor where
  "ui_executor = executor_init (Some \<lparr>pswd = Some ''hunter2''\<rparr>) 5 100 True"

definition long_line_child :: process where
  "long_line_child = quiet\<lparr>stdout_events := [Line ''a'', Failed ValueError]\<rparr>"

definition cancelled_child :: process where
  "cancelled_child =
     quiet\<lparr>stdout_events := [Line ''one'', Monitor (Wakes False), Line newline,
                             Monitor Answered, Line ''two'', Cancelled]\<rparr>"

definition slow_child :: process where
  "slow_child = quiet\<lparr>stdout_events := [Monitor (Wakes False), Monitor Answered]\<rparr>"

definition returning :: "'a \<Rightarrow> 'a coroutine_function" where
  "returning v = \<lparr>is_coroutine_function = True, binds = True, completes = Returns v,
                  when_cancelled = Raises CancelledError\<rparr>"

definition raising :: "exn \<Rightarrow> 'a coroutine_function" where
  "raising e = \<lparr>is_coroutine_function = True, binds = True, completes = Raises e,
                when_cancelled = Raises CancelledError\<rparr>"

section \<open>Facts about the text helpers\<close>

lemma startswith_append: "startswith (s @ t) s"
  by (simp add: startswith_def)

lemma contains_prefix: "contains (s @ t) s"
proof (cases "s @ t")
  case Nil
  then show ?thesis by simp
next
  case (Cons a l)
  with startswith_append [of s t] show ?thesis by simp
qed

lemma contains_append: "contains t s \<Longrightarrow> contains (a @ t) s"
  by (induction a) simp_all

lemma contains_middle: "contains (a @ s @ b) s"
  by (simp add: contains_append contains_prefix)

section \<open>Finalization of the output\<close>

lemma finalized_lines_trunc:
  assumes "0 \<le> max_output_lines ex"
    and "max_output_lines ex < int (length (output_lines @ splitlines (strip out)))"
  shows "finalized_lines ex output_lines out =
           take (nat (max_output_lines ex)) (output_lines @ splitlines (strip out))
           @ [truncation_marker]"
  using assms
  by (auto simp add: finalized_lines_def Let_def slice_to_def splitlines_def)

text \<open>
  C6: when the lines to report (the lines collected by the reading loop followed by the
  lines of what \<^verbatim>\<open>communicate\<close> still returned) are more than the configured maximum,
  a line count that is not negative, the finalized output is the join of exactly the
  first \<open>max_output_lines\<close> of them and one \<open>[Output truncated]\<close> line; it is what is
  recorded in the history and returned on exit status 0.
\<close>

theorem finalize_keeps_earliest_lines:
  assumes "0 \<le> max_output_lines ex"
    and "max_output_lines ex < int (length (output_lines @ splitlines (strip out)))"
  shows "finalize_command_output ex p cmd output_lines out err =
           (let kept = take (nat (max_output_lines ex)) (output_lines @ splitlines (strip out));
                output_str = join newline (kept @ [truncation_marker])
            in (if returncode p = 0 then output_str else ''Error: '' @ strip err,
                ex\<lparr>history := history ex @
                      [\<lparr>command = cmd, output = output_str, error = strip err\<rparr>],
                   sudo_password := None\<rparr>))
         \<and> int (length (take (nat (max_output_lines ex))
                          (output_lines @ splitlines (strip out))))
             = max_output_lines ex"
  using assms finalized_lines_trunc [OF assms]
  by (simp add: finalize_command_output_def Let_def clear_sudo_password_def)

theorem finalize_keeps_earliest_lines_witness:
  "0 \<le> max_output_lines (executor_init None 5 2 True)
   \<and> max_output_lines (executor_init None 5 2 True)
       < int (length ([''1'', ''2'', ''3''] @ splitlines (strip [])))
   \<and> fst (finalize_command_output (executor_init None 5 2 True) quiet ''seq 3''
            [''1'', ''2'', ''3''] [] [])
       = ''1'' @ newline @ ''2'' @ newline @ ''[Output truncated]''"
  using finalize_keeps_earliest_lines [of "executor_init None 5 2 True"
      "[''1'', ''2'', ''3'']" "[]" quiet "''seq 3''" "[]"]
  by (simp add: executor_init_def quiet_def splitlines_def strip_def rstrip_def lstrip_def
      truncation_marker_def Let_def)

section \<open>From the command to the spawned shell line\<close>

lemma execute_command_plain:
  assumes "cmd \<noteq> []" and "\<not> startswith cmd ''sudo''"
  shows "execute_command ex w cmd = spawn_and_process ex w cmd"
  using assms by (simp add: execute_command_def)

lemma execute_command_cached:
  assumes "startswith cmd ''sudo''" and "sudo_password ex = Some pw" and "pw \<noteq> []"
  shows "execute_command ex w cmd =
           spawn_and_process ex w (''echo '' @ pw @ '' | sudo -S '' @ drop 5 cmd)"
proof -
  from assms(1) have "cmd \<noteq> []" by (auto simp add: startswith_def)
  with assms show ?thesis by (simp add: execute_command_def)
qed

lemma execute_command_line:
  assumes "cmd \<noteq> []"
    and "if startswith cmd ''sudo''
         then sudo_password ex = Some pw \<and> pw \<noteq> [] \<and>
              line = ''echo '' @ pw @ '' | sudo -S '' @ drop 5 cmd
         else line = cmd"
  shows "execute_command ex w cmd = spawn_and_process ex w line"
proof (cases "startswith cmd ''sudo''")
  case True
  with assms(2) show ?thesis by (simp add: execute_command_cached)
next
  case False
  with assms show ?thesis by (simp add: execute_command_plain)
qed

section \<open>Declined confirmation\<close>

text \<open>
  C8: for a non-empty command, when the human returns the confirmation field empty,
  \<open>start\<close> returns the pair \<open>(None, None)\<close> and the executor, its history included, is
  as it was.
\<close>

theorem declined_confirmation_leaves_history:
  assumes "cmd \<noteq> []" and "reply w (length (prompts w)) = []"
  shows "fst (start ex w (Some cmd)) = Inr (None, None)
         \<and> history (fst (snd (start ex w (Some cmd)))) = history ex
         \<and> fst (snd (start ex w (Some cmd))) = ex"
  using assms
  by (simp add: start_def confirm_execute_command_def get_user_input_def)

theorem declined_confirmation_leaves_history_witness:
  "fst (start plain_executor console (Some ''rm -rf build'')) = Inr (None, None)
   \<and> history (fst (snd (start plain_executor console (Some ''rm -rf build'')))) = []"
  using declined_confirmation_leaves_history [of "''rm -rf build''" console plain_executor]
  by (simp add: console_def plain_executor_def executor_init_def)

section \<open>The reading loop\<close>

lemma handle_prompt_open:
  assumes "\<not> stdin_closed p" and "handle_prompt ex w p l = (r, w1, p1)"
  shows "r = Inr () \<and> \<not> stdin_closed p1"
  using assms
  by (auto simp add: handle_prompt_def Let_def split: prod.splits if_splits)

lemma handle_prompt_spawned:
  "handle_prompt ex w p l = (r, w1, p1) \<Longrightarrow> spawned w1 = spawned w"
  by (auto simp add: handle_prompt_def get_user_input_def Let_def
      split: if_splits option.splits)

lemma handle_prompt_prompts:
  "truthy (sudo_password ex) \<Longrightarrow> handle_prompt ex w p l = (r, w1, p1)
    \<Longrightarrow> prompts w1 = prompts w"
  by (auto simp add: handle_prompt_def Let_def split: if_splits option.splits)

text \<open>What a step of the monitor changes: the requests, the messages, \<open>terminated\<close>.\<close>

lemma monitor_execution_spawned:
  "monitor_execution ex w p m mev = (w1, p1, m1) \<Longrightarrow> spawned w1 = spawned w"
  by (cases "(ex, w, p, m, mev)" rule: monitor_execution.cases)
     (auto simp add: get_user_input_def print_message_def split: if_splits)

lemma monitor_execution_prompts:
  "monitor_execution ex w p m mev = (w1, p1, m1)
    \<Longrightarrow> prompts w1 = prompts w \<or> prompts w1 = prompts w @ [monitor_request]"
  by (cases "(ex, w, p, m, mev)" rule: monitor_execution.cases)
     (auto simp add: get_user_input_def print_message_def monitor_request_def
        split: if_splits)

lemma monitor_execution_process:
  "monitor_execution ex w p m mev = (w1, p1, m1)
    \<Longrightarrow> p1 = p \<or> p1 = p\<lparr>terminated := True\<rparr>"
  by (cases "(ex, w, p, m, mev)" rule: monitor_execution.cases)
     (auto split: if_splits prod.splits)

lemma read_loop_cancelled:
  assumes "\<not> stdin_closed p" and "uninterrupted pre"
  shows "fst (read_loop ex w p m (pre @ Cancelled # rest) acc) =
           CancelledAt (acc @ List.map_filter (\<lambda>raw. extract_meaningful_text (strip raw))
                                (line_texts pre))"
  using assms
proof (induction pre arbitrary: w p m acc)
  case Nil
  then show ?case by simp
next
  case (Cons ev pre)
  show ?case
  proof (cases ev)
    case (Line raw)
    obtain r w1 p1 where h: "handle_prompt ex w p (strip raw) = (r, w1, p1)"
      by (cases "handle_prompt ex w p (strip raw)") auto
    from handle_prompt_open [OF Cons.prems(1) h]
    have r: "r = Inr ()" and o: "\<not> stdin_closed p1" by simp_all
    from Cons.prems(2) Line have u: "uninterrupted pre" by simp
    show ?thesis
      using Cons.IH [OF o u] Cons.IH [OF Cons.prems(1) u] h r Line
      by (simp add: Let_def split: option.splits)
  next
    case Cancelled
    with Cons.prems show ?thesis by simp
  next
    case (Failed e)
    with Cons.prems show ?thesis by simp
  next
    case (Monitor mev)
    obtain w1 p1 m1 where s: "monitor_execution ex w p m mev = (w1, p1, m1)"
      by (cases "monitor_execution ex w p m mev") auto
    from monitor_execution_process [OF s] Cons.prems(1) have o: "\<not> stdin_closed p1"
      by auto
    from Cons.prems(2) Monitor have u: "uninterrupted pre" by simp
    from Cons.IH [OF o u] s Monitor show ?thesis by simp
  qed
qed

text \<open>
  A stream without lines, cancellation or failure ends the loop with what was collected
  before; the monitor may have asked, printed and terminated meanwhile.
\<close>

lemma read_loop_silent:
  assumes "uninterrupted evs" and "line_texts evs = []"
  shows "\<exists>w1 p1. read_loop ex w p m evs acc = (StreamEnd acc, w1, p1)
                 \<and> (p1 = p \<or> p1 = p\<lparr>terminated := True\<rparr>)"
  using assms
proof (induction evs arbitrary: w p m)
  case Nil
  then show ?case by simp
next
  case (Cons ev evs)
  show ?case
  proof (cases ev)
    case (Line raw)
    with Cons.prems show ?thesis by simp
  next
    case Cancelled
    with Cons.prems show ?thesis by simp
  next
    case (Failed e)
    with Cons.prems show ?thesis by simp
  next
    case (Monitor mev)
    obtain w1 p1 m1 where s: "monitor_execution ex w p m mev = (w1, p1, m1)"
      by (cases "monitor_execution ex w p m mev") auto
    from Cons.prems Monitor have u: "uninterrupted evs" and l: "line_texts evs = []"
      by simp_all
    from Cons.IH [OF u l, of w1 p1 m1] obtain w2 p2
      where r: "read_loop ex w1 p1 m1 evs acc = (StreamEnd acc, w2, p2)"
        and p2: "p2 = p1 \<or> p2 = p1\<lparr>terminated := True\<rparr>" by blast
    from monitor_execution_process [OF s] p2
    have "p2 = p \<or> p2 = p\<lparr>terminated := True\<rparr>" by auto
    with r s Monitor show ?thesis by simp
  qed
qed

text \<open>
  A field of the environment that neither the answer to a prompt nor a step of the
  monitor changes survives the loop.
\<close>

lemma read_loop_world_field:
  assumes hp: "\<And>w p l r w1 p1. handle_prompt ex w p l = (r, w1, p1) \<Longrightarrow> f w1 = f w"
    and mo: "\<And>w p m mev w1 p1 m1.
               monitor_execution ex w p m mev = (w1, p1, m1) \<Longrightarrow> f w1 = f w"
  shows "read_loop ex w p m evs acc = (x, w1, p1) \<Longrightarrow> f w1 = f w"
proof (induction evs arbitrary: w p m acc)
  case Nil
  then show ?case by simp
next
  case (Cons ev evs)
  show ?case
  proof (cases ev)
    case (Line raw)
    obtain r w2 p2 where h: "handle_prompt ex w p (strip raw) = (r, w2, p2)"
      by (cases "handle_prompt ex w p (strip raw)") auto
    note s = hp [OF h]
    show ?thesis
    proof (cases "should_handle_prompt (strip raw)")
      case True
      show ?thesis
      proof (cases r)
        case (Inl e)
        with Cons.prems Line True h s show ?thesis by (simp add: Let_def)
      next
        case (Inr u)
        with Cons.prems Line True h have
          "read_loop ex w2 p2 m evs
             (case extract_meaningful_text (strip raw) of
                Some t \<Rightarrow> acc @ [t] | None \<Rightarrow> acc) = (x, w1, p1)"
          by (simp add: Let_def)
        from Cons.IH [OF this] s show ?thesis by simp
      qed
    next
      case False
      with Cons.prems Line have
        "read_loop ex w p m evs
           (case extract_meaningful_text (strip raw) of
              Some t \<Rightarrow> acc @ [t] | None \<Rightarrow> acc) = (x, w1, p1)"
        by (simp add: Let_def)
      from Cons.IH [OF this] show ?thesis .
    qed
  next
    case Cancelled
    with Cons.prems show ?thesis by simp
  next
    case (Failed e)
    with Cons.prems show ?thesis by simp
  next
    case (Monitor mev)
    obtain w2 p2 m2 where s: "monitor_execution ex w p m mev = (w2, p2, m2)"
      by (cases "monitor_execution ex w p m mev") auto
    with Cons.prems Monitor have "read_loop ex w2 p2 m2 evs acc = (x, w1, p1)" by simp
    from Cons.IH [OF this] mo [OF s] show ?thesis by simp
  qed
qed

lemma process_command_output_world_field:
  assumes hp: "\<And>w p l r w1 p1. handle_prompt ex w p l = (r, w1, p1) \<Longrightarrow> f w1 = f w"
    and mo: "\<And>w p m mev w1 p1 m1.
               monitor_execution ex w p m mev = (w1, p1, m1) \<Longrightarrow> f w1 = f w"
    and pr: "process_command_output ex w p cmd = (r, ex1, w1, p1)"
  shows "f w1 = f w"
proof -
  obtain x w2 p2 where loop: "read_loop ex w p Asleep (stdout_events p) [] = (x, w2, p2)"
    by (cases "read_loop ex w p Asleep (stdout_events p) []") auto
  have "f w2 = f w"
    by (rule read_loop_world_field [where f = f, OF hp mo loop])
  moreover have "w1 = w2"
    using pr loop
    by (cases x) (auto simp add: process_command_output_def Let_def split: prod.splits)
  ultimately show ?thesis by simp
qed

lemma spawn_and_process_world_field:
  assumes hp: "\<And>w p l r w1 p1. handle_prompt ex w p l = (r, w1, p1) \<Longrightarrow> f w1 = f w"
    and mo: "\<And>w p m mev w1 p1 m1.
               monitor_execution ex w p m mev = (w1, p1, m1) \<Longrightarrow> f w1 = f w"
  shows "f (snd (snd (spawn_and_process ex w line))) = f (w\<lparr>spawned := spawned w @ [line]\<rparr>)"
proof (cases "create_subprocess_shell w line")
  case (Inl e)
  then show ?thesis by (simp add: spawn_and_process_def start_subprocess_def)
next
  case (Inr p)
  let ?w = "w\<lparr>spawned := spawned w @ [line]\<rparr>"
  obtain r ex1 w1 p1 where pr: "process_command_output ex ?w p line = (r, ex1, w1, p1)"
    by (cases "process_command_output ex ?w p line") auto
  from process_command_output_world_field [where f = f, OF hp mo pr] Inr pr show ?thesis
    by (simp add: spawn_and_process_def start_subprocess_def)
qed

lemma spawn_and_process_spawned:
  "spawned (snd (snd (spawn_and_process ex w line))) = spawned w @ [line]"
proof -
  have "spawned (snd (snd (spawn_and_process ex w line)))
          = spawned (w\<lparr>spawned := spawned w @ [line]\<rparr>)"
  proof (rule spawn_and_process_world_field [where f = spawned])
    fix w p l r w1 p1
    assume "handle_prompt ex w p l = (r, w1, p1)"
    then show "spawned w1 = spawned w" by (rule handle_prompt_spawned)
  next
    fix w p m mev w1 p1 m1
    assume "monitor_execution ex w p m mev = (w1, p1, m1)"
    then show "spawned w1 = spawned w" by (rule monitor_execution_spawned)
  qed
  then show ?thesis by simp
qed

text \<open>
  With a credential at hand, the requests made from the spawn on are those of the
  monitor.
\<close>

lemma spawn_and_process_requests:
  assumes "truthy (sudo_password ex)"
  shows "filter (\<lambda>q. q \<noteq> monitor_request) (prompts (snd (snd (spawn_and_process ex w line))))
           = filter (\<lambda>q. q \<noteq> monitor_request) (prompts w)"
proof -
  let ?f = "\<lambda>w. filter (\<lambda>q. q \<noteq> monitor_request) (prompts w)"
  have "?f (snd (snd (spawn_and_process ex w line)))
          = ?f (w\<lparr>spawned := spawned w @ [line]\<rparr>)"
  proof (rule spawn_and_process_world_field [where f = ?f])
    fix w p l r w1 p1
    assume "handle_prompt ex w p l = (r, w1, p1)"
    with assms have "prompts w1 = prompts w" by (rule handle_prompt_prompts)
    then show "?f w1 = ?f w" by simp
  next
    fix w p m mev w1 p1 m1
    assume "monitor_execution ex w p m mev = (w1, p1, m1)"
    from monitor_execution_prompts [OF this] show "?f w1 = ?f w" by auto
  qed
  then show ?thesis by simp
qed

section \<open>A silent child\<close>

lemma silent_process:
  assumes "uninterrupted (stdout_events p)" and "line_texts (stdout_events p) = []"
    and "strip (communicate_stdout p) = []"
    and "returncode p = 0" and "1 \<le> max_output_lines ex"
  shows "fst (process_command_output ex w p cmd) = Inr (Some no_output_message)"
proof -
  from read_loop_silent [OF assms(1,2), of ex w p Asleep "[]"] obtain w1 p1
    where r: "read_loop ex w p Asleep (stdout_events p) [] = (StreamEnd [], w1, p1)"
      and p1: "p1 = p \<or> p1 = p\<lparr>terminated := True\<rparr>" by blast
  from p1 assms(3,4) have "strip (communicate_stdout p1) = []" and "returncode p1 = 0"
    by auto
  with r assms(5) show ?thesis
    by (simp add: process_command_output_def finalize_command_output_def finalized_lines_def
        clear_sudo_password_def Let_def)
qed

text \<open>
  C7: a command that is not a sudo command, or a sudo command with a cached credential,
  whose child prints no stdout line (none to \<^verbatim>\<open>readline\<close>, nothing but white space
  to \<^verbatim>\<open>communicate\<close>) and exits with status 0 makes \<open>execute_command\<close> return the
  fixed "No output received" message, which is not the empty string, whatever the
  monitor has asked meanwhile. The configured maximum line count is at least one.
\<close>

theorem silent_command_returns_sentinel:
  assumes "cmd \<noteq> []"
    and "if startswith cmd ''sudo''
         then sudo_password ex = Some pw \<and> pw \<noteq> [] \<and>
              line = ''echo '' @ pw @ '' | sudo -S '' @ drop 5 cmd
         else line = cmd"
    and "create_subprocess_shell w line = Inr p"
    and "uninterrupted (stdout_events p)" and "line_texts (stdout_events p) = []"
    and "strip (communicate_stdout p) = []"
    and "returncode p = 0"
    and "1 \<le> max_output_lines ex"
  shows "fst (execute_command ex w cmd) = Inr (Some no_output_message)
         \<and> no_output_message \<noteq> []"
proof -
  let ?w = "w\<lparr>spawned := spawned w @ [line]\<rparr>"
  obtain r ex1 w1 p1 where pr: "process_command_output ex ?w p line = (r, ex1, w1, p1)"
    by (cases "process_command_output ex ?w p line") auto
  from silent_process [OF assms(4-8), of ?w line] pr
  have "r = Inr (Some no_output_message)" by simp
  with pr assms(3) have "fst (spawn_and_process ex w line) = Inr (Some no_output_message)"
    by (simp add: spawn_and_process_def start_subprocess_def)
  with execute_command_line [OF assms(1,2)] show ?thesis
    by (simp add: no_output_message_def)
qed

theorem silent_command_returns_sentinel_witness:
  "fst (execute_command plain_executor console ''true'')
     = Inr (Some ''No output received. Command may require user interaction or is piped.'')
   \<and> fst (execute_command plain_executor
            (console\<lparr>create_subprocess_shell := (\<lambda>c. Inr slow_child)\<rparr>) ''sleep 9'')
     = Inr (Some ''No output received. Command may require user interaction or is piped.'')"
  using silent_command_returns_sentinel [of "''true''" plain_executor "[]" "''true''"
      console quiet]
    silent_command_returns_sentinel [of "''sleep 9''" plain_executor "[]" "''sleep 9''"
      "console\<lparr>create_subprocess_shell := (\<lambda>c. Inr slow_child)\<rparr>" slow_child]
  by (simp add: startswith_def quiet_def slow_child_def console_def strip_def rstrip_def
      lstrip_def plain_executor_def executor_init_def no_output_message_def)

section \<open>Cancellation of the reading loop\<close>

text \<open>
  C9: when the reading loop of \<open>execute_command\<close> is cancelled after the stretch
  \<open>pre\<close> of the stream, in which no read is cancelled or fails (the child's stdin pipe
  being open, so that no answer to a prompt fails before), the method returns the join
  of the lines collected so far, and the executor's history and its cached sudo
  credential are what they were: no record is appended and the credential is not
  cleared. The steps of the monitor in between change nothing of this.
\<close>

theorem cancelled_read_returns_partial_output:
  assumes "cmd \<noteq> []"
    and "if startswith cmd ''sudo''
         then sudo_password ex = Some pw \<and> pw \<noteq> [] \<and>
              line = ''echo '' @ pw @ '' | sudo -S '' @ drop 5 cmd
         else line = cmd"
    and "create_subprocess_shell w line = Inr p"
    and "stdout_events p = pre @ Cancelled # rest" and "uninterrupted pre"
    and "\<not> stdin_closed p"
  shows "fst (execute_command ex w cmd) =
           Inr (Some (join newline
                  (List.map_filter (\<lambda>raw. extract_meaningful_text (strip raw))
                     (line_texts pre))))
         \<and> history (fst (snd (execute_command ex w cmd))) = history ex
         \<and> sudo_password (fst (snd (execute_command ex w cmd))) = sudo_password ex"
proof -
  let ?w = "w\<lparr>spawned := spawned w @ [line]\<rparr>"
  obtain x w1 p1 where loop: "read_loop ex ?w p Asleep (stdout_events p) [] = (x, w1, p1)"
    by (cases "read_loop ex ?w p Asleep (stdout_events p) []") auto
  from read_loop_cancelled [OF assms(6,5), of ex ?w Asleep rest "[]"] assms(4) loop
  have x: "x = CancelledAt (List.map_filter (\<lambda>raw. extract_meaningful_text (strip raw))
                              (line_texts pre))"
    by simp
  have "spawn_and_process ex w line =
          (Inr (Some (join newline
                  (List.map_filter (\<lambda>raw. extract_meaningful_text (strip raw))
                     (line_texts pre)))), ex, w1)"
    using assms(3) loop x
    by (simp add: spawn_and_process_def start_subprocess_def process_command_output_def)
  with execute_command_line [OF assms(1,2)] show ?thesis by simp
qed

theorem cancelled_read_returns_partial_output_witness:
  "fst (execute_command sudo_executor
          (console\<lparr>create_subprocess_shell := (\<lambda>c. Inr cancelled_child)\<rparr>)
          ''sudo make install'')
     = Inr (Some (''one'' @ newline @ ''two''))
   \<and> history (fst (snd (execute_command sudo_executor
          (console\<lparr>create_subprocess_shell := (\<lambda>c. Inr cancelled_child)\<rparr>)
          ''sudo make install''))) = []
   \<and> sudo_password (fst (snd (execute_command sudo_executor
          (console\<lparr>create_subprocess_shell := (\<lambda>c. Inr cancelled_child)\<rparr>)
          ''sudo make install'')))
       = Some ''hunter2''"
  using cancelled_read_returns_partial_output [of "''sudo make install''" sudo_executor
      "''hunter2''" "''echo hunter2 | sudo -S make install''"
      "console\<lparr>create_subprocess_shell := (\<lambda>c. Inr cancelled_child)\<rparr>" cancelled_child
      "[Line ''one'', Monitor (Wakes False), Line newline, Monitor Answered, Line ''two'']"
      "[]"]
  by (simp add: startswith_def sudo_executor_def executor_init_def cancelled_child_def
      quiet_def extract_meaningful_text_def strip_def lstrip_def rstrip_def
      is_space_def remove_control_def is_control_def newline_def Let_def)

section \<open>Exceptions that leave the executor\<close>

text \<open>
  C1: \<open>execute_command\<close> does let exceptions out. When \<^verbatim>\<open>create_subprocess_shell\<close>
  raises, \<open>start_subprocess\<close> passes the exception on and the test for a \<^verbatim>\<open>None\<close>
  handle is never reached; when \<^verbatim>\<open>readline\<close> raises inside the reading loop, only
  the \<^verbatim>\<open>finally\<close> clause runs. In both runs the caller receives the exception.
\<close>

theorem execute_command_lets_exceptions_out:
  "fst (execute_command plain_executor
          (console\<lparr>create_subprocess_shell := (\<lambda>c. Inl OSError)\<rparr>) ''ls'') = Inl OSError
   \<and> fst (execute_command plain_executor
          (console\<lparr>create_subprocess_shell := (\<lambda>c. Inr long_line_child)\<rparr>) ''ls'')
       = Inl ValueError"
  by (simp add: execute_command_def startswith_def spawn_and_process_def start_subprocess_def
      console_def process_command_output_def long_line_child_def quiet_def Let_def
      should_handle_prompt_def lower_def lower_char_def strip_def lstrip_def rstrip_def
      is_space_def)

text \<open>
  C5: an exception other than \<^verbatim>\<open>CancelledError\<close> raised in the reading loop leaves
  \<open>process_command_output\<close> with the child neither terminated nor awaited: here the
  child has printed one line and then a line longer than the stream's limit.
\<close>

theorem failed_read_leaves_child_running:
  "process_command_output plain_executor console long_line_child ''yes''
     = (Inl ValueError, plain_executor, console, long_line_child)
   \<and> \<not> terminated long_line_child \<and> \<not> exit_awaited long_line_child"
  by (simp add: process_command_output_def long_line_child_def quiet_def Let_def
      should_handle_prompt_def lower_def lower_char_def strip_def lstrip_def rstrip_def
      is_space_def startswith_def)

section \<open>The sudo command line\<close>

text \<open>
  C3, as the code has it: for a command that starts with \<open>sudo\<close> and a cached
  credential that is not empty, the one command line handed to the spawn call is the
  text \<open>echo\<close> and a blank, the credential as it is, the text \<open>| sudo -S\<close> between
  blanks, and the command from its sixth character on. The credential is part of that
  line, which is the last argument of the spawned shell. What the shell makes of the
  line depends on the characters of the credential and is not part of the statement.
\<close>

theorem sudo_line_embeds_credential:
  assumes "startswith cmd ''sudo''" and "sudo_password ex = Some pw" and "pw \<noteq> []"
  shows "spawned (snd (snd (execute_command ex w cmd))) =
           spawned w @ [''echo '' @ pw @ '' | sudo -S '' @ drop 5 cmd]
         \<and> contains (last (shell_argv (''echo '' @ pw @ '' | sudo -S '' @ drop 5 cmd))) pw"
  using execute_command_cached [OF assms, of w] contains_middle [of "''echo ''" pw]
  by (simp add: spawn_and_process_spawned shell_argv_def)

theorem sudo_line_embeds_credential_witness:
  "spawned (snd (snd (execute_command sudo_executor console ''sudo apt update'')))
     = [''echo hunter2 | sudo -S apt update'']
   \<and> contains (last (shell_argv ''echo hunter2 | sudo -S apt update'')) ''hunter2''"
  using sudo_line_embeds_credential [of "''sudo apt update''" sudo_executor "''hunter2''" console]
  by (simp add: startswith_def sudo_executor_def executor_init_def console_def)

text \<open>
  C3, as stated, fails: with the cached credential \<open>hunter2\<close> the command \<open>sudo ls\<close>
  is spawned as a shell whose argument vector contains the credential.
\<close>

theorem secret_on_command_line:
  "spawned (snd (snd (execute_command sudo_executor console ''sudo ls'')))
     = [''echo hunter2 | sudo -S ls'']
   \<and> shell_argv ''echo hunter2 | sudo -S ls'' = [''/bin/sh'', ''-c'', ''echo hunter2 | sudo -S ls'']
   \<and> contains ''echo hunter2 | sudo -S ls'' ''hunter2''"
  by (simp add: execute_command_def startswith_def spawn_and_process_def start_subprocess_def
      console_def quiet_def process_command_output_def finalize_command_output_def Let_def
      sudo_executor_def executor_init_def shell_argv_def clear_sudo_password_def)

section \<open>Clearing the cached credential\<close>

text \<open>
  C10: \<open>clear_sudo_password\<close> sets the executor's own \<open>sudo_password\<close> field to
  \<open>None\<close> and nothing else, so a credential kept on the UI collaborator stays there;
  the next sudo command on the cleared executor takes the credential from the UI
  without any request to the human, spawns the command line built with it, and in the
  whole call no request is made for a credential: the only requests there can be are
  the monitor's question about a command that takes long.
\<close>

theorem clear_keeps_ui_credential:
  assumes "ui ex = Some u" and "pswd u = Some pw" and "pw \<noteq> []"
    and "startswith cmd ''sudo''"
  shows "clear_sudo_password ex = ex\<lparr>sudo_password := None\<rparr>
         \<and> ui (clear_sudo_password ex) = Some u
         \<and> get_sudo_password (clear_sudo_password ex) w
             = (Inr (), ex\<lparr>sudo_password := Some pw\<rparr>, w)
         \<and> spawned (snd (snd (execute_command (clear_sudo_password ex) w cmd))) =
             spawned w @ [''echo '' @ pw @ '' | sudo -S '' @ drop 5 cmd]
         \<and> filter (\<lambda>q. q \<noteq> monitor_request)
              (prompts (snd (snd (execute_command (clear_sudo_password ex) w cmd))))
             = filter (\<lambda>q. q \<noteq> monitor_request) (prompts w)"
proof -
  let ?ex = "clear_sudo_password ex"
  let ?ex1 = "ex\<lparr>sudo_password := Some pw\<rparr>"
  let ?line = "''echo '' @ pw @ '' | sudo -S '' @ drop 5 cmd"
  from assms(4) have ne: "cmd \<noteq> []" by (auto simp add: startswith_def)
  have get: "get_sudo_password ?ex w = (Inr (), ?ex1, w)"
    using assms(1-3) by (simp add: get_sudo_password_def clear_sudo_password_def)
  have run: "execute_command ?ex w cmd = spawn_and_process ?ex1 w ?line"
    using assms(3,4) ne get by (simp add: execute_command_def clear_sudo_password_def)
  have "truthy (sudo_password ?ex1)" using assms(3) by simp
  from spawn_and_process_requests [OF this, of w ?line] run assms(1) get
  show ?thesis
    by (simp add: spawn_and_process_spawned clear_sudo_password_def)
qed

theorem clear_keeps_ui_credential_witness:
  "sudo_password (clear_sudo_password ui_executor) = None
   \<and> ui (clear_sudo_password ui_executor) = Some \<lparr>pswd = Some ''hunter2''\<rparr>
   \<and> spawned (snd (snd (execute_command (clear_sudo_password ui_executor)
        (console\<lparr>create_subprocess_shell := (\<lambda>c. Inr slow_child)\<rparr>) ''sudo ls'')))
       = [''echo hunter2 | sudo -S ls'']
   \<and> filter (\<lambda>q. q \<noteq> monitor_request)
        (prompts (snd (snd (execute_command (clear_sudo_password ui_executor)
           (console\<lparr>create_subprocess_shell := (\<lambda>c. Inr slow_child)\<rparr>) ''sudo ls''))))
       = []"
proof -
  have u: "ui ui_executor = Some \<lparr>pswd = Some ''hunter2''\<rparr>"
    by (simp add: ui_executor_def executor_init_def)
  have s: "startswith ''sudo ls'' ''sudo''"
    by (simp add: startswith_def)
  from clear_keeps_ui_credential [OF u _ _ s, of "''hunter2''"
      "console\<lparr>create_subprocess_shell := (\<lambda>c. Inr slow_child)\<rparr>"]
  show ?thesis by (simp add: console_def clear_sudo_password_def)
qed

section \<open>The task manager under every schedule\<close>

lemma good_enqueue:
  assumes "good fs ts cs"
  shows "good (fs @ [\<lparr>state = Pending, set_calls = 0\<rparr>])
              (ts @ [\<lparr>coro_func = c, future = length fs\<rparr>]) (cs @ [c])"
proof -
  from assms have len: "length fs = length cs"
    and dist: "distinct (map future ts)"
    and ts: "\<forall>t \<in> set ts. future t < length cs \<and> coro_func t = cs ! future t \<and>
                    set_calls (fs ! future t) = 0"
    and ex: "\<forall>i < length cs. explained (cs ! i) (fs ! i)"
    by (simp_all add: good_def)
  have "length fs \<notin> future ` set ts"
    using ts len by auto
  with dist have d: "distinct (map future (ts @ [\<lparr>coro_func = c, future = length fs\<rparr>]))"
    by simp
  have t: "\<forall>t \<in> set (ts @ [\<lparr>coro_func = c, future = length fs\<rparr>]).
             future t < length (cs @ [c]) \<and> coro_func t = (cs @ [c]) ! future t \<and>
             set_calls ((fs @ [\<lparr>state = Pending, set_calls = 0\<rparr>]) ! future t) = 0"
    using ts len by (auto simp add: nth_append)
  have e: "\<forall>i < length (cs @ [c]).
             explained ((cs @ [c]) ! i) ((fs @ [\<lparr>state = Pending, set_calls = 0\<rparr>]) ! i)"
    using ex len by (auto simp add: nth_append explained_def less_Suc_eq)
  from len d t e show ?thesis
    unfolding good_def by simp
qed

text \<open>The head of the waiting tasks leaves, and only its future changes.\<close>

lemma good_after:
  assumes g: "good fs (t # ts) cs" and l: "length fs' = length fs"
    and o: "\<forall>j. j \<noteq> future t \<longrightarrow> fs' ! j = fs ! j"
    and e: "explained (cs ! future t) (fs' ! future t)"
  shows "good fs' ts cs"
proof -
  from g have len: "length fs = length cs"
    and dist: "distinct (map future (t # ts))"
    and ts: "\<forall>u \<in> set (t # ts). future u < length cs \<and> coro_func u = cs ! future u \<and>
                    set_calls (fs ! future u) = 0"
    and ex: "\<forall>i < length cs. explained (cs ! i) (fs ! i)"
    by (simp_all add: good_def)
  from dist have "future t \<notin> future ` set ts" by simp
  then have nt: "\<forall>u \<in> set ts. future u \<noteq> future t" by (metis imageI)
  have t': "\<forall>u \<in> set ts. future u < length cs \<and> coro_func u = cs ! future u \<and>
              set_calls (fs' ! future u) = 0"
    using ts nt o by simp
  have e': "\<forall>i < length cs. explained (cs ! i) (fs' ! i)"
  proof (intro allI impI)
    fix i assume "i < length cs"
    with ex o e show "explained (cs ! i) (fs' ! i)"
      by (cases "i = future t") simp_all
  qed
  from len l dist t' e' show ?thesis
    unfolding good_def by simp
qed

text \<open>Only the state of one future changes, and no call is made on it.\<close>

lemma good_cancel:
  assumes g: "good fs ts cs" and i: "i < length fs" and p: "state (fs ! i) = Pending"
  shows "good (fs[i := (fs ! i)\<lparr>state := FutureCancelled\<rparr>]) ts cs"
proof -
  from g have len: "length fs = length cs"
    and dist: "distinct (map future ts)"
    and ts: "\<forall>u \<in> set ts. future u < length cs \<and> coro_func u = cs ! future u \<and>
                    set_calls (fs ! future u) = 0"
    and ex: "\<forall>j < length cs. explained (cs ! j) (fs ! j)"
    by (simp_all add: good_def)
  let ?fs = "fs[i := (fs ! i)\<lparr>state := FutureCancelled\<rparr>]"
  have c: "set_calls (?fs ! j) = set_calls (fs ! j)" if "j < length fs" for j
    using that by (cases "j = i") simp_all
  have t': "\<forall>u \<in> set ts. future u < length cs \<and> coro_func u = cs ! future u \<and>
              set_calls (?fs ! future u) = 0"
    using ts c len by simp
  have e': "\<forall>j < length cs. explained (cs ! j) (?fs ! j)"
  proof (intro allI impI)
    fix j assume j: "j < length cs"
    show "explained (cs ! j) (?fs ! j)"
    proof (cases "j = i")
      case True
      from ex j True p have "set_calls (fs ! i) = 0" by (auto simp add: explained_def)
      with True i show ?thesis by (simp add: explained_def)
    next
      case False
      with ex j show ?thesis by simp
    qed
  qed
  from len dist t' e' show ?thesis
    unfolding good_def by simp
qed

lemma worker_loop_fields:
  "futures (worker_loop s) = futures s \<and> outstanding (worker_loop s) = task_queue s"
  by (cases "task_queue s") (simp_all add: worker_loop_def worker_finally_def outstanding_def)

lemma worker_finally_fields:
  "futures (worker_finally s) = futures s \<and> outstanding (worker_finally s) = task_queue s"
  by (simp add: worker_finally_def outstanding_def)

lemma after_await_fields:
  "length (futures (after_await s t out)) = length (futures s)
   \<and> (\<forall>j. j \<noteq> future t \<longrightarrow> futures (after_await s t out) ! j = futures s ! j)
   \<and> outstanding (after_await s t out) = task_queue s"
  by (cases out)
     (auto simp add: after_await_def future_set_result_def future_set_exception_def
        set_result_def set_exception_def worker_loop_fields worker_finally_fields Let_def)

text \<open>
  What the end of the awaited unit of work does to the future of its task: one call
  that resolves a pending future, or one or two calls that fail on a cancelled one.
\<close>

lemma after_await_explained:
  assumes i: "future t < length (futures s)"
    and z: "set_calls (futures s ! future t) = 0"
    and e: "explained c (futures s ! future t)"
    and o: "out = completes c \<or> out = when_cancelled c"
  shows "explained c (futures (after_await s t out) ! future t)"
proof -
  from z e have st: "state (futures s ! future t) = Pending
                     \<or> state (futures s ! future t) = FutureCancelled"
    by (cases "state (futures s ! future t)") (simp_all add: explained_def)
  show ?thesis
  proof (cases out)
    case (Returns v)
    with st i z o show ?thesis
      by (auto simp add: after_await_def future_set_result_def future_set_exception_def
          set_result_def set_exception_def worker_loop_fields worker_finally_fields
          explained_def)
  next
    case (Raises x)
    with st i z o e show ?thesis
      by (cases "is_Exception x")
         (auto simp add: after_await_def future_set_exception_def
          set_exception_def worker_loop_fields worker_finally_fields explained_def)
  qed
qed

lemma after_await_consistent:
  assumes c: "consistent s cs" and w: "worker_task s = Some (Awaiting t)"
    and o: "out = completes (coro_func t) \<or> out = when_cancelled (coro_func t)"
  shows "consistent (after_await s t out) cs"
proof -
  from c w have g: "good (futures s) (t # task_queue s) cs"
    by (simp add: consistent_def outstanding_def)
  then have i: "future t < length (futures s)" and ct: "coro_func t = cs ! future t"
    and z: "set_calls (futures s ! future t) = 0"
    and e: "explained (cs ! future t) (futures s ! future t)"
    by (simp_all add: good_def)
  from o ct have o': "out = completes (cs ! future t) \<or> out = when_cancelled (cs ! future t)"
    by simp
  note f = after_await_fields [of s t out]
  have "good (futures (after_await s t out)) (task_queue s) cs"
    by (rule good_after [OF g]) (simp_all add: f after_await_explained [OF i z e o'])
  with f show ?thesis by (simp add: consistent_def)
qed

lemma resume_worker_consistent:
  assumes "consistent s cs"
  shows "consistent (resume_worker s) cs"
proof (cases "worker_task s")
  case None
  with assms show ?thesis by (simp add: resume_worker_def)
next
  case (Some wk)
  show ?thesis
  proof (cases wk)
    case Scheduled
    with Some assms show ?thesis
      by (simp add: resume_worker_def task_worker_def consistent_def worker_loop_fields)
         (simp add: outstanding_def)
  next
    case (Awaiting t)
    have c': "consistent (s\<lparr>cancel_requested := False\<rparr>) cs"
      using assms by (simp add: consistent_def outstanding_def)
    from Awaiting Some show ?thesis
      using after_await_consistent [OF assms, of t "completes (coro_func t)"]
        after_await_consistent [OF c', of t "when_cancelled (coro_func t)"]
      by (simp add: resume_worker_def)
  next
    case Done
    with Some assms show ?thesis by (simp add: resume_worker_def)
  qed
qed

lemma start_fields:
  "futures (task_manager_start s) = futures s
   \<and> outstanding (task_manager_start s) = outstanding s"
  by (auto simp add: task_manager_start_def outstanding_def)

lemma stop_fields:
  "futures (task_manager_stop s) = futures s
   \<and> outstanding (task_manager_stop s) = outstanding s"
  by (auto simp add: task_manager_stop_def outstanding_def)

lemma cancel_caller_consistent:
  assumes "consistent s cs"
  shows "consistent (cancel_caller s i) cs"
proof (cases "i < length (futures s) \<and> state (futures s ! i) = Pending")
  case True
  from assms have "good (futures s) (outstanding s) cs" by (simp add: consistent_def)
  from good_cancel [OF this, of i] True show ?thesis
    by (simp add: cancel_caller_def consistent_def outstanding_def)
next
  case False
  with assms show ?thesis by (auto simp add: cancel_caller_def)
qed

lemma step_consistent:
  assumes "consistent s cs"
  shows "consistent (step s ev) (cs @ submitted [ev])"
proof (cases ev)
  case (Enqueue c)
  show ?thesis
  proof (cases "is_coroutine_function c \<and> binds c")
    case True
    from assms have "good (futures s) (outstanding s) cs" by (simp add: consistent_def)
    from good_enqueue [OF this, of c] True Enqueue show ?thesis
      by (simp add: enqueue_def consistent_def Let_def start_fields)
         (simp add: outstanding_def)
  next
    case False
    with Enqueue assms show ?thesis by (auto simp add: enqueue_def)
  qed
next
  case Start
  with assms show ?thesis by (simp add: consistent_def start_fields)
next
  case Stop
  with assms show ?thesis by (simp add: consistent_def stop_fields)
next
  case Resume
  with assms show ?thesis by (simp add: resume_worker_consistent)
next
  case (CancelCaller i)
  with assms show ?thesis by (simp add: cancel_caller_consistent)
qed

lemma submitted_append: "submitted (xs @ ys) = submitted xs @ submitted ys"
  by (induction xs rule: submitted.induct) simp_all

lemma run_consistent:
  "consistent s cs \<Longrightarrow> consistent (run s evs) (cs @ submitted evs)"
proof (induction evs arbitrary: s cs)
  case Nil
  then show ?case by (simp add: run_def)
next
  case (Cons ev evs)
  from step_consistent [OF Cons.prems, of ev]
  have "consistent (step s ev) (cs @ submitted [ev])" .
  from Cons.IH [OF this] show ?case
    using submitted_append [of "[ev]" evs] by (simp add: run_def)
qed

lemma init_consistent: "consistent task_manager_init []"
  by (simp add: consistent_def good_def task_manager_init_def outstanding_def)

lemma reachable_consistent: "consistent (run task_manager_init evs) (submitted evs)"
  using run_consistent [OF init_consistent, of evs] by simp

lemma resume_worker_untouched:
  assumes "untouched s i"
  shows "untouched (resume_worker s) i"
proof (cases "worker_task s")
  case None
  with assms show ?thesis by (simp add: resume_worker_def)
next
  case (Some wk)
  show ?thesis
  proof (cases wk)
    case Scheduled
    with Some assms show ?thesis
      by (simp add: resume_worker_def task_worker_def untouched_def worker_loop_fields)
         (simp add: outstanding_def)
  next
    case (Awaiting t)
    from assms Some Awaiting have it: "i \<noteq> future t"
      and iq: "i \<notin> future ` set (task_queue s)"
      by (auto simp add: untouched_def outstanding_def)
    from assms have il: "i < length (futures s)" and ip: "\<not> resolved (futures s ! i)"
      by (simp_all add: untouched_def)
    have a: "untouched (after_await s' t out) i"
      if "futures s' = futures s" and "task_queue s' = task_queue s" for s' out
      using after_await_fields [of s' t out] that it iq il ip
      by (simp add: untouched_def)
    from Some Awaiting a [of s] a [of "s\<lparr>cancel_requested := False\<rparr>"] show ?thesis
      by (simp add: resume_worker_def)
  next
    case Done
    with Some assms show ?thesis by (simp add: resume_worker_def)
  qed
qed

lemma step_untouched:
  assumes "untouched s i"
  shows "untouched (step s ev) i"
proof (cases ev)
  case (Enqueue c)
  show ?thesis
  proof (cases "is_coroutine_function c \<and> binds c")
    case True
    with Enqueue assms show ?thesis
      by (simp add: enqueue_def Let_def untouched_def start_fields nth_append)
         (auto simp add: outstanding_def)
  next
    case False
    with Enqueue assms show ?thesis by (auto simp add: enqueue_def)
  qed
next
  case Start
  with assms show ?thesis by (simp add: untouched_def start_fields)
next
  case Stop
  with assms show ?thesis by (simp add: untouched_def stop_fields)
next
  case Resume
  with assms show ?thesis by (simp add: resume_worker_untouched)
next
  case (CancelCaller j)
  have "\<not> resolved (futures (cancel_caller s j) ! i)"
    using assms
    by (cases "i = j") (auto simp add: cancel_caller_def untouched_def resolved_def)
  with CancelCaller assms show ?thesis
    by (auto simp add: untouched_def cancel_caller_def outstanding_def)
qed

lemma run_untouched: "untouched s i \<Longrightarrow> untouched (run s evs) i"
proof (induction evs arbitrary: s)
  case Nil
  then show ?case by (simp add: run_def)
next
  case (Cons ev evs)
  from Cons.IH [OF step_untouched [OF Cons.prems, of ev]] show ?case
    by (simp add: run_def)
qed

lemma cancel_in_flight:
  assumes w: "worker_task s = Some (Awaiting t)"
    and c: "when_cancelled (coro_func t) = Raises CancelledError"
  shows "run s [Stop, Resume] =
           s\<lparr>journal := journal s @ [Ended (future t)], worker_running := False,
              worker_task := Some Done, cancel_requested := False\<rparr>"
  using assms
  by (simp add: run_def task_manager_stop_def resume_worker_def after_await_def
      worker_finally_def)

lemma cancelled_task_untouched:
  assumes cons: "consistent s cs" and w: "worker_task s = Some (Awaiting t)"
    and c: "when_cancelled (coro_func t) = Raises CancelledError"
  shows "untouched (run s [Stop, Resume]) (future t)"
proof -
  from cons w have g: "good (futures s) (t # task_queue s) cs"
    by (simp add: consistent_def outstanding_def)
  then have "future t < length (futures s)"
    and "set_calls (futures s ! future t) = 0"
    and "explained (cs ! future t) (futures s ! future t)"
    and "future t \<notin> future ` set (task_queue s)"
    by (simp_all add: good_def)
  then show ?thesis
    unfolding cancel_in_flight [OF w c]
    by (cases "state (futures s ! future t)")
       (simp_all add: untouched_def outstanding_def resolved_def explained_def)
qed

section \<open>The task manager in schedules without stop and without cancelled callers\<close>

lemma task_of_append: "i < length cs \<Longrightarrow> task_of (cs @ [c]) i = task_of cs i"
  by (simp add: task_of_def nth_append)

lemma tasks_append:
  assumes "k \<le> length cs"
  shows "map (task_of (cs @ [c])) [k..<Suc (length cs)] =
           map (task_of cs) [k..<length cs] @ [\<lparr>coro_func = c, future = length cs\<rparr>]"
proof -
  have "map (task_of (cs @ [c])) [k..<length cs] = map (task_of cs) [k..<length cs]"
    by (rule map_cong) (simp_all add: task_of_append)
  moreover have "task_of (cs @ [c]) (length cs) = \<lparr>coro_func = c, future = length cs\<rparr>"
    by (simp add: task_of_def)
  ultimately show ?thesis using assms by simp
qed

lemma replicate_one_more:
  "k \<le> n \<Longrightarrow> replicate (Suc n - k) x = replicate (n - k) x @ [x]"
  by (simp add: Suc_diff_le replicate_append_same)

lemma progress_append:
  assumes "progress s cs k" and "returns_or_raises_Exception c"
    and "futures s' = futures s @ [\<lparr>state = Pending, set_calls = 0\<rparr>]"
    and "cancel_requested s' = cancel_requested s"
  shows "progress s' (cs @ [c]) k"
proof -
  from assms(1) have k: "k \<le> length cs" by (simp add: progress_def)
  with assms show ?thesis
    by (simp add: progress_def replicate_one_more)
qed

lemma settle_next:
  assumes "k < length cs"
  shows "(map f (take k cs) @ replicate (length cs - k) x)[k := f (cs ! k)] =
           map f (take (Suc k) cs) @ replicate (length cs - Suc k) x"
proof -
  from assms obtain m where m: "length cs - k = Suc m" and m': "length cs - Suc k = m"
    by (cases "length cs - k") auto
  from assms have len: "length (map f (take k cs)) = k" by simp
  have "(map f (take k cs) @ replicate (Suc m) x)[k := f (cs ! k)] =
          map f (take k cs) @ (replicate (Suc m) x)[0 := f (cs ! k)]"
    using len by (simp add: list_update_append)
  also have "\<dots> = map f (take k cs) @ [f (cs ! k)] @ replicate m x"
    by simp
  also have "\<dots> = map f (take (Suc k) cs) @ replicate m x"
    using assms by (simp add: take_Suc_conv_app_nth)
  finally show ?thesis using m m' by simp
qed

lemma next_pending:
  assumes "k < length cs"
  shows "(map f (take k cs) @ replicate (length cs - k) x) ! k = x"
  using assms by (simp add: nth_append)

lemma progress_length: "progress s cs k \<Longrightarrow> length (futures s) = length cs"
  by (simp add: progress_def)

lemma in_order_enqueue:
  assumes io: "in_order s cs" and ok: "is_coroutine_function c" "binds c"
    and fe: "returns_or_raises_Exception c"
  shows "in_order (step s (Enqueue c)) (cs @ [c])"
proof -
  from io obtain k where p: "progress s cs k"
    and ph: "busy s cs k \<or> ready s cs k \<or> idle s cs k"
    by (auto simp add: in_order_def)
  from p have k: "k \<le> length cs" and nc: "\<not> cancel_requested s"
    by (simp_all add: progress_def)
  note len = progress_length [OF p]
  let ?s1 = "s\<lparr>futures := futures s @ [\<lparr>state = Pending, set_calls = 0\<rparr>],
               task_queue := task_queue s @ [\<lparr>coro_func = c, future = length cs\<rparr>]\<rparr>"
  let ?s' = "if \<not> worker_running s then task_manager_start ?s1 else ?s1"
  have st: "step s (Enqueue c) = ?s'"
    using ok len by (simp add: enqueue_def Let_def)
  have "progress ?s' (cs @ [c]) k"
    by (rule progress_append [OF p fe]) (simp_all add: task_manager_start_def nc)
  moreover have "busy ?s' (cs @ [c]) k \<or> ready ?s' (cs @ [c]) k"
  proof -
    from ph consider (b) "busy s cs k" | (r) "ready s cs k" | (i) "idle s cs k" by blast
    then show ?thesis
    proof cases
      case b
      then have "k < length cs" by (simp add: busy_def)
      with b tasks_append [of "Suc k" cs c] have "busy ?s' (cs @ [c]) k"
        by (simp add: busy_def task_of_append)
      then show ?thesis ..
    next
      case r
      with k tasks_append [of k cs c] have "ready ?s' (cs @ [c]) k"
        by (simp add: ready_def task_manager_start_def)
      then show ?thesis ..
    next
      case i
      with tasks_append [of k cs c] have "ready ?s' (cs @ [c]) k"
        by (auto simp add: idle_def ready_def task_manager_start_def)
      then show ?thesis ..
    qed
  qed
  ultimately show ?thesis
    unfolding st in_order_def by blast
qed

lemma in_order_start:
  assumes io: "in_order s cs"
  shows "in_order (task_manager_start s) cs"
proof -
  from io obtain k where p: "progress s cs k"
    and ph: "busy s cs k \<or> ready s cs k \<or> idle s cs k"
    by (auto simp add: in_order_def)
  from p have p': "progress (task_manager_start s) cs k"
    by (simp add: progress_def task_manager_start_def)
  from ph consider (b) "busy s cs k" | (r) "ready s cs k" | (i) "idle s cs k" by blast
  then have "busy (task_manager_start s) cs k \<or> ready (task_manager_start s) cs k"
  proof cases
    case b
    then have "busy (task_manager_start s) cs k"
      by (simp add: busy_def task_manager_start_def)
    then show ?thesis ..
  next
    case r
    then have "ready (task_manager_start s) cs k"
      by (simp add: ready_def task_manager_start_def)
    then show ?thesis ..
  next
    case i
    then have "ready (task_manager_start s) cs k"
      by (auto simp add: idle_def ready_def task_manager_start_def)
    then show ?thesis ..
  qed
  with p' show ?thesis unfolding in_order_def by blast
qed

text \<open>Entering the loop with the tasks from \<open>k\<close> on in the queue.\<close>

lemma worker_loop_in_order:
  assumes p: "progress s cs k"
    and q: "task_queue s = map (task_of cs) [k..<length cs]"
    and j: "journal s = done_journal k" and r: "worker_running s"
  shows "progress (worker_loop s) cs k
         \<and> (busy (worker_loop s) cs k \<or> idle (worker_loop s) cs k)"
proof (cases "k < length cs")
  case True
  then have "[k..<length cs] = k # [Suc k..<length cs]" by (rule upt_conv_Cons)
  with q have q': "task_queue s = task_of cs k # map (task_of cs) [Suc k..<length cs]"
    by simp
  have "progress (worker_loop s) cs k"
    using p q' by (simp add: worker_loop_def progress_def)
  moreover have "busy (worker_loop s) cs k"
    using True q' j r by (simp add: worker_loop_def busy_def task_of_def)
  ultimately show ?thesis by simp
next
  case False
  with p have kn: "k = length cs" by (simp add: progress_def)
  with q have q': "task_queue s = []" by simp
  have "progress (worker_loop s) cs k"
    using p q' by (simp add: worker_loop_def worker_finally_def progress_def)
  moreover have "idle (worker_loop s) cs k"
    using kn q' j by (simp add: worker_loop_def worker_finally_def idle_def)
  ultimately show ?thesis by simp
qed

lemma settled_Returns: "completes c = Returns v \<Longrightarrow> settled c = \<lparr>state = Result v, set_calls = 1\<rparr>"
  by (simp add: settled_def)

lemma settled_Raises: "completes c = Raises e \<Longrightarrow> settled c = \<lparr>state = Exception e, set_calls = 1\<rparr>"
  by (simp add: settled_def)

text \<open>The unit of work of task \<open>k\<close> ends: its future is settled and the loop goes on.\<close>

lemma busy_resume:
  assumes p: "progress s cs k" and b: "busy s cs k"
  shows "\<exists>s1. resume_worker s = worker_loop s1 \<and> progress s1 cs (Suc k)
              \<and> task_queue s1 = map (task_of cs) [Suc k..<length cs]
              \<and> journal s1 = done_journal (Suc k) \<and> worker_running s1"
proof -
  from b have k: "k < length cs" and w: "worker_task s = Some (Awaiting (task_of cs k))"
    and r: "worker_running s" and q: "task_queue s = map (task_of cs) [Suc k..<length cs]"
    and j: "journal s = done_journal k @ [Began k]"
    by (simp_all add: busy_def)
  from p have nc: "\<not> cancel_requested s"
    and fs: "futures s = map settled (take k cs)
                 @ replicate (length cs - k) \<lparr>state = Pending, set_calls = 0\<rparr>"
    and cl: "\<forall>c \<in> set cs. returns_or_raises_Exception c"
    by (simp_all add: progress_def)
  from fs next_pending [OF k, of settled] have fk: "futures s ! k = \<lparr>state = Pending, set_calls = 0\<rparr>"
    by simp
  from cl k have ck: "returns_or_raises_Exception (cs ! k)" by simp
  let ?s1 = "s\<lparr>journal := journal s @ [Ended k], futures := (futures s)[k := settled (cs ! k)]\<rparr>"
  have res: "resume_worker s = worker_loop ?s1"
  proof (cases "completes (cs ! k)")
    case (Returns v)
    with w nc fk settled_Returns [OF Returns] show ?thesis
      by (simp add: resume_worker_def after_await_def task_of_def future_set_result_def
          set_result_def)
  next
    case (Raises e)
    with ck have "is_Exception e" by (simp add: returns_or_raises_Exception_def)
    with Raises w nc fk settled_Raises [OF Raises] show ?thesis
      by (simp add: resume_worker_def after_await_def task_of_def future_set_exception_def
          set_exception_def)
  qed
  have "progress ?s1 cs (Suc k)"
    using k nc cl fs settle_next [OF k, of settled] by (simp add: progress_def)
  moreover have "task_queue ?s1 = map (task_of cs) [Suc k..<length cs]" using q by simp
  moreover have "journal ?s1 = done_journal (Suc k)" using j by simp
  moreover have "worker_running ?s1" using r by simp
  ultimately show ?thesis using res by blast
qed

lemma in_order_resume:
  assumes io: "in_order s cs"
  shows "in_order (resume_worker s) cs"
proof -
  from io obtain k where p: "progress s cs k"
    and ph: "busy s cs k \<or> ready s cs k \<or> idle s cs k"
    by (auto simp add: in_order_def)
  from ph consider (b) "busy s cs k" | (r) "ready s cs k" | (i) "idle s cs k" by blast
  then show ?thesis
  proof cases
    case b
    from busy_resume [OF p b] obtain s1 where s1: "resume_worker s = worker_loop s1"
      and p1: "progress s1 cs (Suc k)"
      and q1: "task_queue s1 = map (task_of cs) [Suc k..<length cs]"
      and j1: "journal s1 = done_journal (Suc k)" and r1: "worker_running s1"
      by blast
    from worker_loop_in_order [OF p1 q1 j1 r1] s1 show ?thesis
      unfolding in_order_def by auto
  next
    case r
    let ?s1 = "s\<lparr>worker_running := True\<rparr>"
    from r p have res: "resume_worker s = worker_loop ?s1"
      by (simp add: ready_def progress_def resume_worker_def task_worker_def)
    have "progress ?s1 cs k" using p by (simp add: progress_def)
    moreover have "task_queue ?s1 = map (task_of cs) [k..<length cs]"
      using r by (simp add: ready_def)
    moreover have "journal ?s1 = done_journal k" using r by (simp add: ready_def)
    moreover have "worker_running ?s1" by simp
    ultimately show ?thesis
      using worker_loop_in_order [of ?s1 cs k] res unfolding in_order_def by auto
  next
    case i
    then have "resume_worker s = s"
      by (auto simp add: idle_def resume_worker_def)
    with io show ?thesis by simp
  qed
qed

lemma step_in_order:
  assumes "in_order s cs" and "orderly ev"
  shows "in_order (step s ev) (cs @ submitted [ev])"
proof (cases ev)
  case (Enqueue c)
  show ?thesis
  proof (cases "is_coroutine_function c \<and> binds c")
    case True
    with assms Enqueue in_order_enqueue [of s cs c] show ?thesis by simp
  next
    case False
    with assms Enqueue show ?thesis by (auto simp add: enqueue_def)
  qed
next
  case Start
  with assms show ?thesis by (simp add: in_order_start)
next
  case Stop
  with assms show ?thesis by simp
next
  case Resume
  with assms show ?thesis by (simp add: in_order_resume)
next
  case (CancelCaller i)
  with assms show ?thesis by simp
qed

lemma run_in_order:
  "in_order s cs \<Longrightarrow> \<forall>ev \<in> set evs. orderly ev
    \<Longrightarrow> in_order (run s evs) (cs @ submitted evs)"
proof (induction evs arbitrary: s cs)
  case Nil
  then show ?case by (simp add: run_def)
next
  case (Cons ev evs)
  from Cons.prems have "in_order (step s ev) (cs @ submitted [ev])"
    by (simp add: step_in_order)
  from Cons.IH [OF this] Cons.prems(2) show ?case
    using submitted_append [of "[ev]" evs] by (simp add: run_def)
qed

lemma init_in_order: "in_order task_manager_init []"
  by (simp add: in_order_def progress_def idle_def task_manager_init_def)

lemma worker_loop_steps_left: "steps_left (worker_loop s) = length (task_queue s)"
  by (cases "task_queue s") (simp_all add: worker_loop_def worker_finally_def steps_left_def)

lemma resume_steps_left:
  assumes io: "in_order s cs"
  shows "steps_left (resume_worker s) = steps_left s - 1"
proof -
  from io obtain k where p: "progress s cs k"
    and ph: "busy s cs k \<or> ready s cs k \<or> idle s cs k"
    by (auto simp add: in_order_def)
  from ph consider (b) "busy s cs k" | (r) "ready s cs k" | (i) "idle s cs k" by blast
  then show ?thesis
  proof cases
    case b
    from busy_resume [OF p b] obtain s1 where s1: "resume_worker s = worker_loop s1"
      and q1: "task_queue s1 = map (task_of cs) [Suc k..<length cs]"
      by blast
    then have "steps_left (resume_worker s) = length cs - Suc k"
      by (simp add: worker_loop_steps_left)
    moreover from b have "steps_left s = Suc (length cs - Suc k)"
      by (simp add: steps_left_def busy_def)
    ultimately show ?thesis by simp
  next
    case r
    with p have "resume_worker s = worker_loop (s\<lparr>worker_running := True\<rparr>)"
      by (simp add: ready_def progress_def resume_worker_def task_worker_def)
    then have "steps_left (resume_worker s) = length (task_queue s)"
      by (simp add: worker_loop_steps_left)
    moreover from r have "steps_left s = Suc (length (task_queue s))"
      by (simp add: steps_left_def ready_def)
    ultimately show ?thesis by simp
  next
    case i
    then show ?thesis
      by (auto simp add: idle_def resume_worker_def steps_left_def)
  qed
qed

lemma steps_left_bound:
  assumes "in_order s cs"
  shows "steps_left s \<le> Suc (length cs)"
  using assms
  by (auto simp add: in_order_def busy_def ready_def idle_def steps_left_def)

lemma in_order_finished:
  assumes "in_order s cs" and "steps_left s = 0"
  shows "futures s = map settled cs \<and> journal s = done_journal (length cs)
         \<and> task_queue s = [] \<and> \<not> worker_running s"
  using assms
  by (auto simp add: in_order_def busy_def ready_def idle_def steps_left_def progress_def)

lemma run_Resume:
  "run s (replicate (Suc m) Resume) = run (resume_worker s) (replicate m Resume)"
  by (simp add: run_def)

lemma run_append: "run s (xs @ ys) = run (run s xs) ys"
  by (simp add: run_def)

lemma resumes_finish:
  "in_order s cs \<Longrightarrow> steps_left s \<le> m
    \<Longrightarrow> in_order (run s (replicate m Resume)) cs
        \<and> steps_left (run s (replicate m Resume)) = 0"
proof (induction m arbitrary: s)
  case 0
  then show ?case by (simp add: run_def)
next
  case (Suc m)
  from Suc.prems have io: "in_order (resume_worker s) cs"
    by (simp add: in_order_resume)
  from Suc.prems resume_steps_left [of s cs] have "steps_left (resume_worker s) \<le> m"
    by simp
  from Suc.IH [OF io this] show ?case
    by (simp only: run_Resume)
qed

lemma orderly_schedule_finishes:
  assumes "\<forall>ev \<in> set evs. orderly ev" and "length (submitted evs) < m"
  shows "in_order (run task_manager_init (evs @ replicate m Resume)) (submitted evs)
         \<and> steps_left (run task_manager_init (evs @ replicate m Resume)) = 0"
proof -
  let ?s = "run task_manager_init evs"
  from run_in_order [OF init_in_order assms(1)] have io: "in_order ?s (submitted evs)"
    by simp
  from steps_left_bound [OF io] assms(2) have "steps_left ?s \<le> m" by simp
  from resumes_finish [OF io this] show ?thesis
    by (simp add: run_append)
qed

lemma await_settled: "await_future (settled c) = Some (completes c)"
  by (cases "completes c") (simp_all add: settled_def await_future_def)

text \<open>
  C4, as the code has it: take a schedule of \<^verbatim>\<open>enqueue\<close> and \<^verbatim>\<open>start\<close> calls and
  worker steps, without \<^verbatim>\<open>stop\<close> and without the cancellation of a waiting caller,
  in which every unit of work returns or raises an exception of class \<^verbatim>\<open>Exception\<close>,
  and let the worker have more steps afterwards than there are accepted units. Then the
  units have been begun and ended one at a time in the order of submission, the queue
  is empty, and every future is resolved by one call with the outcome of its own unit,
  which is what its caller gets: the exception for the unit that raised, and their
  results for the others.
\<close>

theorem orderly_schedule_settles_in_order:
  assumes "\<forall>ev \<in> set evs. orderly ev" and "length (submitted evs) < m"
  shows "futures (run task_manager_init (evs @ replicate m Resume)) = map settled (submitted evs)
         \<and> map await_future (futures (run task_manager_init (evs @ replicate m Resume)))
             = map (\<lambda>c. Some (completes c)) (submitted evs)
         \<and> journal (run task_manager_init (evs @ replicate m Resume))
             = done_journal (length (submitted evs))
         \<and> task_queue (run task_manager_init (evs @ replicate m Resume)) = []"
proof -
  from orderly_schedule_finishes [OF assms] in_order_finished
  have f: "futures (run task_manager_init (evs @ replicate m Resume)) = map settled (submitted evs)"
    and j: "journal (run task_manager_init (evs @ replicate m Resume))
             = done_journal (length (submitted evs))"
    and q: "task_queue (run task_manager_init (evs @ replicate m Resume)) = []"
    by blast+
  from f have "map await_future (futures (run task_manager_init (evs @ replicate m Resume)))
             = map (\<lambda>c. Some (completes c)) (submitted evs)"
    by (simp add: await_settled)
  with f j q show ?thesis by simp
qed

lemmas tm_eval = run_def enqueue_def task_manager_start_def task_manager_stop_def
  resume_worker_def task_worker_def worker_loop_def worker_finally_def after_await_def
  future_set_result_def future_set_exception_def set_result_def set_exception_def
  cancel_caller_def returning_def raising_def task_manager_init_def Let_def

theorem orderly_schedule_settles_in_order_witness:
  "futures (run task_manager_init
      ([Enqueue (returning (1::nat)), Enqueue (raising (RuntimeError ''boom'')),
        Enqueue (returning 3)] @ replicate 4 Resume))
     = [\<lparr>state = Result 1, set_calls = 1\<rparr>,
        \<lparr>state = Exception (RuntimeError ''boom''), set_calls = 1\<rparr>,
        \<lparr>state = Result 3, set_calls = 1\<rparr>]
   \<and> map await_future (futures (run task_manager_init
      ([Enqueue (returning (1::nat)), Enqueue (raising (RuntimeError ''boom'')),
        Enqueue (returning 3)] @ replicate 4 Resume)))
     = [Some (Returns 1), Some (Raises (RuntimeError ''boom'')), Some (Returns 3)]
   \<and> journal (run task_manager_init
      ([Enqueue (returning (1::nat)), Enqueue (raising (RuntimeError ''boom'')),
        Enqueue (returning 3)] @ replicate 4 Resume))
     = [Began 0, Ended 0, Began 1, Ended 1, Began 2, Ended 2]"
  using orderly_schedule_settles_in_order [of "[Enqueue (returning (1::nat)),
      Enqueue (raising (RuntimeError ''boom'')), Enqueue (returning 3)]" 4]
  by (simp add: returning_def raising_def settled_def returns_or_raises_Exception_def
      await_future_def)

text \<open>
  C4, as stated, fails in two ways. A unit of work that raises \<^verbatim>\<open>CancelledError\<close>,
  which \<^verbatim>\<open>except Exception\<close> does not catch, ends the worker: the future of that
  unit and the future of the unit queued behind it stay pending. And when the caller
  that waits for the unit in flight is cancelled, \<^verbatim>\<open>set_result\<close> and then
  \<^verbatim>\<open>set_exception\<close> fail on its cancelled future and the worker ends, the future
  behind it pending. In both runs further steps of the worker change nothing.
\<close>

theorem cancelled_unit_stalls_queue:
  "run task_manager_init
      [Enqueue (raising CancelledError), Enqueue (returning (3::nat)), Resume, Resume, Resume]
     = \<lparr>task_queue = [\<lparr>coro_func = returning 3, future = 1\<rparr>],
        worker_running = False, worker_task = Some Done, cancel_requested = False,
        futures = [\<lparr>state = Pending, set_calls = 0\<rparr>, \<lparr>state = Pending, set_calls = 0\<rparr>],
        journal = [Began 0, Ended 0]\<rparr>
   \<and> resume_worker (run task_manager_init
      [Enqueue (raising CancelledError), Enqueue (returning (3::nat)), Resume, Resume, Resume])
     = run task_manager_init
      [Enqueue (raising CancelledError), Enqueue (returning (3::nat)), Resume, Resume, Resume]
   \<and> run task_manager_init
      [Enqueue (returning (1::nat)), Enqueue (returning 2), Resume, CancelCaller 0, Resume]
     = \<lparr>task_queue = [\<lparr>coro_func = returning 2, future = 1\<rparr>],
        worker_running = False, worker_task = Some Done, cancel_requested = False,
        futures = [\<lparr>state = FutureCancelled, set_calls = 2\<rparr>,
                   \<lparr>state = Pending, set_calls = 0\<rparr>],
        journal = [Began 0, Ended 0]\<rparr>
   \<and> resume_worker (run task_manager_init
      [Enqueue (returning (1::nat)), Enqueue (returning 2), Resume, CancelCaller 0, Resume])
     = run task_manager_init
      [Enqueue (returning (1::nat)), Enqueue (returning 2), Resume, CancelCaller 0, Resume]"
  by (simp add: tm_eval)

section \<open>Resolution of the completion handles\<close>

text \<open>
  C2, as the code has it. Under every schedule of \<^verbatim>\<open>enqueue\<close>, \<^verbatim>\<open>start\<close>,
  \<^verbatim>\<open>stop\<close>, worker steps and cancellations of waiting callers: no call has been
  made on a pending future; a resolved future has had exactly one \<^verbatim>\<open>set_result\<close> or
  \<^verbatim>\<open>set_exception\<close> call and holds a result or an exception of class
  \<^verbatim>\<open>Exception\<close> with which its unit of work ended; a future cancelled by its caller
  has had at most two calls. In a schedule without \<^verbatim>\<open>stop\<close> and without cancelled
  callers whose units return or raise exceptions of class \<^verbatim>\<open>Exception\<close>, the
  future is resolved, by exactly one call, once the worker has had more steps than
  there are accepted units. When \<^verbatim>\<open>stop\<close> cancels the worker while it awaits the
  unit of task \<open>t\<close>, and the unit lets the cancellation through, the worker is done,
  the queue is as it was, no call has been made on the futures of the queued tasks, and
  the future of \<open>t\<close> is not resolved under any later schedule.
\<close>

theorem completion_handle_resolved_at_most_once:
  "(i < length (futures (run task_manager_init evs)) \<longrightarrow>
      (let f = futures (run task_manager_init evs) ! i; c = submitted evs ! i in
       (state f = Pending \<longrightarrow> set_calls f = 0)
       \<and> (state f = FutureCancelled \<longrightarrow> set_calls f \<le> 2)
       \<and> (\<forall>v. state f = Result v \<longrightarrow>
              set_calls f = 1 \<and> (completes c = Returns v \<or> when_cancelled c = Returns v))
       \<and> (\<forall>e. state f = Exception e \<longrightarrow>
              set_calls f = 1 \<and> is_Exception e
              \<and> (completes c = Raises e \<or> when_cancelled c = Raises e))))
   \<and> ((\<forall>ev \<in> set evs. orderly ev) \<and> i < length (submitted evs) \<and> length (submitted evs) < m
        \<longrightarrow> set_calls (futures (run task_manager_init (evs @ replicate m Resume)) ! i) = 1
            \<and> resolved (futures (run task_manager_init (evs @ replicate m Resume)) ! i))
   \<and> (worker_task (run task_manager_init evs) = Some (Awaiting t)
        \<and> when_cancelled (coro_func t) = Raises CancelledError
        \<longrightarrow> \<not> resolved (futures (run task_manager_init (evs @ Stop # Resume # later)) ! future t)
            \<and> worker_task (run task_manager_init (evs @ [Stop, Resume])) = Some Done
            \<and> task_queue (run task_manager_init (evs @ [Stop, Resume]))
                = task_queue (run task_manager_init evs)
            \<and> (\<forall>u \<in> set (task_queue (run task_manager_init evs)).
                  set_calls (futures (run task_manager_init (evs @ [Stop, Resume])) ! future u)
                    = 0
                  \<and> \<not> resolved
                        (futures (run task_manager_init (evs @ [Stop, Resume])) ! future u)))"
proof (intro conjI impI)
  let ?s = "run task_manager_init evs"
  assume i: "i < length (futures ?s)"
  from reachable_consistent [of evs] have g: "good (futures ?s) (outstanding ?s) (submitted evs)"
    by (simp add: consistent_def)
  with i have "explained (submitted evs ! i) (futures ?s ! i)"
    by (simp add: good_def)
  then show "let f = futures ?s ! i; c = submitted evs ! i in
       (state f = Pending \<longrightarrow> set_calls f = 0)
       \<and> (state f = FutureCancelled \<longrightarrow> set_calls f \<le> 2)
       \<and> (\<forall>v. state f = Result v \<longrightarrow>
              set_calls f = 1 \<and> (completes c = Returns v \<or> when_cancelled c = Returns v))
       \<and> (\<forall>e. state f = Exception e \<longrightarrow>
              set_calls f = 1 \<and> is_Exception e
              \<and> (completes c = Raises e \<or> when_cancelled c = Raises e))"
    by (cases "state (futures ?s ! i)") (simp_all add: explained_def Let_def)
next
  assume a: "(\<forall>ev \<in> set evs. orderly ev) \<and> i < length (submitted evs)
               \<and> length (submitted evs) < m"
  then have f: "futures (run task_manager_init (evs @ replicate m Resume))
               = map settled (submitted evs)"
    using orderly_schedule_finishes [of evs m] in_order_finished by blast
  with a show "set_calls (futures (run task_manager_init (evs @ replicate m Resume)) ! i) = 1"
    by (simp add: settled_def split: outcome.splits)
  from f a show "resolved (futures (run task_manager_init (evs @ replicate m Resume)) ! i)"
    by (simp add: settled_def resolved_def split: outcome.splits)
next
  let ?s = "run task_manager_init evs"
  assume a: "worker_task ?s = Some (Awaiting t)
               \<and> when_cancelled (coro_func t) = Raises CancelledError"
  then have w: "worker_task ?s = Some (Awaiting t)"
    and c: "when_cancelled (coro_func t) = Raises CancelledError" by simp_all
  from cancelled_task_untouched [OF reachable_consistent w c]
  have "untouched (run (run ?s [Stop, Resume]) later) (future t)"
    by (rule run_untouched)
  then show "\<not> resolved (futures (run task_manager_init (evs @ Stop # Resume # later)) ! future t)"
    using run_append [of task_manager_init evs "Stop # Resume # later"]
      run_append [of ?s "[Stop, Resume]" later]
    by (simp add: untouched_def)
  show "worker_task (run task_manager_init (evs @ [Stop, Resume])) = Some Done"
    using cancel_in_flight [OF w c] by (simp add: run_append)
  show q: "task_queue (run task_manager_init (evs @ [Stop, Resume])) = task_queue ?s"
    using cancel_in_flight [OF w c] by (simp add: run_append)
  let ?s' = "run task_manager_init (evs @ [Stop, Resume])"
  let ?cs = "submitted (evs @ [Stop, Resume])"
  from reachable_consistent [of "evs @ [Stop, Resume]"]
  have g: "good (futures ?s') (outstanding ?s') ?cs"
    by (simp add: consistent_def)
  have sub: "set (task_queue ?s') \<subseteq> set (outstanding ?s')"
    by (simp add: outstanding_def)
  show "\<forall>u \<in> set (task_queue ?s).
          set_calls (futures ?s' ! future u) = 0 \<and> \<not> resolved (futures ?s' ! future u)"
  proof
    fix u assume "u \<in> set (task_queue ?s)"
    with q sub have u: "u \<in> set (outstanding ?s')" by auto
    with g have z: "set_calls (futures ?s' ! future u) = 0"
      and l: "future u < length ?cs" by (simp_all add: good_def)
    from g l have "explained (?cs ! future u) (futures ?s' ! future u)"
      by (simp add: good_def)
    with z have "\<not> resolved (futures ?s' ! future u)"
      by (cases "state (futures ?s' ! future u)") (simp_all add: explained_def resolved_def)
    with z show "set_calls (futures ?s' ! future u) = 0 \<and> \<not> resolved (futures ?s' ! future u)"
      by simp
  qed
qed

theorem completion_handle_resolved_at_most_once_witness:
  "set_calls (futures (run task_manager_init
       [Enqueue (returning (1::nat)), Enqueue (returning 2), Resume]) ! 0) = 0
   \<and> set_calls (futures (run task_manager_init
       ([Enqueue (returning (1::nat)), Enqueue (returning 2), Resume] @ replicate 3 Resume)) ! 0) = 1
   \<and> \<not> resolved (futures (run task_manager_init
       ([Enqueue (returning (1::nat)), Enqueue (returning 2), Resume]
        @ Stop # Resume # [Enqueue (returning 5), Resume, Resume, Resume])) ! 0)"
proof -
  let ?evs = "[Enqueue (returning (1::nat)), Enqueue (returning 2), Resume]"
  have i: "0 < length (futures (run task_manager_init ?evs))
           \<and> state (futures (run task_manager_init ?evs) ! 0) = Pending"
    by (simp add: tm_eval)
  have o: "(\<forall>ev \<in> set ?evs. orderly ev) \<and> 0 < length (submitted ?evs)
           \<and> length (submitted ?evs) < 3"
    by (simp add: returning_def returns_or_raises_Exception_def)
  have w: "worker_task (run task_manager_init ?evs)
             = Some (Awaiting \<lparr>coro_func = returning 1, future = 0\<rparr>)
           \<and> when_cancelled (coro_func \<lparr>coro_func = returning (1::nat), future = 0\<rparr>)
               = Raises CancelledError"
    by (simp add: tm_eval)
  from completion_handle_resolved_at_most_once [of 0 ?evs 3
      "\<lparr>coro_func = returning 1, future = 0\<rparr>" "[Enqueue (returning 5), Resume, Resume, Resume]"]
    i o w
  show ?thesis by (simp add: Let_def)
qed

text \<open>
  C2, as stated, fails: \<^verbatim>\<open>stop\<close> while the first of two tasks is in flight leaves
  the worker done with no call made on either future; the second task is still queued,
  the first is neither queued nor awaited, and further steps of the worker change
  nothing. And when the caller of the task in flight is cancelled, two calls are made
  on its future, which stays cancelled.
\<close>

theorem stop_leaves_handles_unresolved:
  "run task_manager_init
      [Enqueue (returning (1::nat)), Enqueue (returning 2), Resume, Stop, Resume]
     = \<lparr>task_queue = [\<lparr>coro_func = returning 2, future = 1\<rparr>],
        worker_running = False, worker_task = Some Done, cancel_requested = False,
        futures = [\<lparr>state = Pending, set_calls = 0\<rparr>, \<lparr>state = Pending, set_calls = 0\<rparr>],
        journal = [Began 0, Ended 0]\<rparr>
   \<and> resume_worker (run task_manager_init
      [Enqueue (returning (1::nat)), Enqueue (returning 2), Resume, Stop, Resume])
     = run task_manager_init
      [Enqueue (returning (1::nat)), Enqueue (returning 2), Resume, Stop, Resume]
   \<and> futures (run task_manager_init
      [Enqueue (returning (1::nat)), Enqueue (returning 2), Resume, CancelCaller 0, Resume])
     = [\<lparr>state = FutureCancelled, set_calls = 2\<rparr>, \<lparr>state = Pending, set_calls = 0\<rparr>]"
  by (simp add: tm_eval)

end
